theory Spec2Isabelle
  imports Main "HOL-Library.Char_ord" "HOL-Library.List_Lexorder" "HOL-Library.Code_Target_Nat"
begin

section \<open>Data model (src/types.ts)\<close>

text \<open>
  Records follow the interfaces of \<^verbatim>\<open>types.ts\<close>, restricted to the fields that
  \<^verbatim>\<open>agent.ts\<close> reads. A field declared optional (\<^verbatim>\<open>?:\<close>) is an \<open>option\<close>; a field
  declared required is taken as present, so the defensive \<^verbatim>\<open>?.\<close> and \<^verbatim>\<open>??\<close> that the
  code applies to required fields have nothing to do. JavaScript numbers are modelled
  as unbounded integers: identifiers, epoch seconds, ranks and limits are integral, and
  of a problem's points only the sign is read. Strings are byte lists.
\<close>

datatype participantType = CONTESTANT | PRACTICE | VIRTUAL | MANAGER | OUT_OF_COMPETITION

record CFMember =
  m_handle :: string

record CFParty =
  p_members :: "CFMember list"
  p_participantType :: participantType
  p_teamName :: "string option"
  p_startTimeSeconds :: "int option"

record CFSubmission =
  s_contestId :: "int option"
  s_creationTimeSeconds :: int
  s_author :: CFParty

record CFContest =
  c_id :: int
  c_name :: string
  c_durationSeconds :: int
  c_difficulty :: "int option"

record CFProblem =
  pb_index :: string

record CFProblemResult =
  pr_points :: int

record CFRanklistRow =
  r_party :: CFParty
  r_rank :: int
  r_problemResults :: "CFProblemResult list"

record CFStandingsResponse =
  d_problems :: "CFProblem list"
  d_rows :: "CFRanklistRow list"

record SimSession =
  sim_contestId :: int
  sim_startTimeSeconds :: int
  sim_teamName :: "string option"
  sim_members :: "string list"

record StandingsEntry =
  st_rank :: int
  st_total :: "int option"
  st_solved :: nat
  st_totalProblems :: nat

record GymResult =
  g_name :: string
  g_link :: string
  g_difficulty :: "string option"
  g_durationHours :: "int option"
  g_simulatedAt :: string
  g_teamName :: "string option"
  g_members :: "string list"
  g_rank :: "string option"
  g_solved :: "string option"

record GymSimulationsResult =
  res_handle :: string
  res_gyms :: "GymResult list"

datatype role = User | Assistant

record ConversationMessage =
  msg_role :: role
  msg_content :: string

datatype SSEEvent =
    SSE_text string
  | SSE_tool_call string
  | SSE_tool_result string bool "string option"
  | SSE_retrying nat
  | SSE_done
  | SSE_error "string option"

text \<open>
  What a \<^verbatim>\<open>throw\<close> carries. \<open>ApiError\<close> is the \<^verbatim>\<open>Error\<close> raised by \<^verbatim>\<open>cfCall\<close> or by the
  model provider, with the two properties the retry wrapper inspects; \<open>TypeError\<close> and
  \<open>RangeError\<close> are the runtime's own.
\<close>

record ApiError =
  e_status :: "int option"
  e_message :: "string option"

datatype error = Thrown ApiError | TypeError | RangeError

section \<open>Number to string\<close>

text \<open>
  The template literals \<^verbatim>\<open>`${n}`\<close> render an integral number in decimal, with a
  leading minus sign when negative.
\<close>

definition digitChar :: "nat \<Rightarrow> char" where
  "digitChar d = ''0123456789'' ! d"

fun showNat :: "nat \<Rightarrow> string" where
  "showNat n = (if n < 10 then [digitChar n] else showNat (n div 10) @ [digitChar (n mod 10)])"

declare showNat.simps [simp del]

definition showInt :: "int \<Rightarrow> string" where
  "showInt i = (if i < 0 then CHR ''-'' # showNat (nat (- i)) else showNat (nat i))"

section \<open>Gym simulation resolver (getGymSimulations)\<close>

text \<open>
  The data client \<^verbatim>\<open>codeforces.ts\<close> ends in a network call, so its three methods used
  here are parameters. Each either throws or returns a value of its declared type.
  \<open>getContestStandings\<close> is called once per selected session and may answer
  differently each time, so it also receives the number of standings calls made
  before it; the constant arguments \<^verbatim>\<open>(1, CAP, [], true)\<close> are left out.
\<close>

record cfApi =
  getUserSubmissions :: "string \<Rightarrow> nat \<Rightarrow> nat \<Rightarrow> error + CFSubmission list"
  getContestList :: "bool \<Rightarrow> error + CFContest list"
  getContestStandings :: "nat \<Rightarrow> int \<Rightarrow> error + CFStandingsResponse"

text \<open>
  \<^verbatim>\<open>sessions\<close> is a JavaScript \<^verbatim>\<open>Map\<close>, which iterates in insertion order: an
  association list, new keys appended at the end.
\<close>

type_synonym sessions = "(string \<times> SimSession) list"

definition has :: "sessions \<Rightarrow> string \<Rightarrow> bool" where
  "has sessions key = (key \<in> set (map fst sessions))"

definition sessionKey :: "int \<Rightarrow> int \<Rightarrow> string" where
  "sessionKey contestId startTime = showInt contestId @ ''_'' @ showInt startTime"

definition isGym :: "CFSubmission \<Rightarrow> bool" where
  "isGym s = ((case s_contestId s of None \<Rightarrow> 0 | Some c \<Rightarrow> c) > 100000)"

definition isVirtual :: "CFSubmission \<Rightarrow> bool" where
  "isVirtual s = (p_participantType (s_author s) = VIRTUAL)"

definition startTime :: "CFSubmission \<Rightarrow> int" where
  "startTime s =
     (case p_startTimeSeconds (s_author s) of Some t \<Rightarrow> t | None \<Rightarrow> s_creationTimeSeconds s)"

text \<open>
  The session a submission would store. \<^verbatim>\<open>s.contestId!\<close> is read only after
  \<open>isGym\<close> held, where the identifier is present.
\<close>

definition newSession :: "CFSubmission \<Rightarrow> SimSession" where
  "newSession s =
     \<lparr> sim_contestId = (case s_contestId s of None \<Rightarrow> 0 | Some c \<Rightarrow> c),
       sim_startTimeSeconds = startTime s,
       sim_teamName = p_teamName (s_author s),
       sim_members = sort (map m_handle (p_members (s_author s))) \<rparr>"

definition submissionKey :: "CFSubmission \<Rightarrow> string" where
  "submissionKey s = sessionKey (case s_contestId s of None \<Rightarrow> 0 | Some c \<Rightarrow> c) (startTime s)"

text \<open>
  Stages A and B, the body of \<^verbatim>\<open>for (const s of subs)\<close>: a record that is not a gym
  record or not a virtual participation is skipped (\<^verbatim>\<open>continue\<close>); otherwise it is
  filed under its key unless the key is there already.
\<close>

definition scanSubmission :: "sessions \<Rightarrow> CFSubmission \<Rightarrow> sessions" where
  "scanSubmission sessions s =
     (if \<not> isGym s \<or> \<not> isVirtual s then sessions
      else if \<not> has sessions (submissionKey s)
           then sessions @ [(submissionKey s, newSession s)]
           else sessions)"

definition pageSize :: nat where
  "pageSize = 100"

definition maxPages :: nat where
  "maxPages = 20"

text \<open>
  The paging loop \<^verbatim>\<open>for (let page = 0; page < maxPages; page++)\<close>, with \<open>frm\<close> for the
  variable \<^verbatim>\<open>from\<close>. It ends on an empty page, after a short page, once
  \<^verbatim>\<open>sessions.size >= limit * 3\<close>, or after \<open>maxPages\<close> pages; a throwing fetch ends the
  whole call.
\<close>

function scanPages ::
  "cfApi \<Rightarrow> string \<Rightarrow> int \<Rightarrow> nat \<Rightarrow> nat \<Rightarrow> sessions \<Rightarrow> error + sessions" where
  "scanPages api handle limit page frm sessions =
     (if page < maxPages then
        (case getUserSubmissions api handle pageSize frm of
           Inl e \<Rightarrow> Inl e
         | Inr subs \<Rightarrow>
             if subs = [] then Inr sessions
             else if length subs < pageSize then Inr (foldl scanSubmission sessions subs)
             else if int (length (foldl scanSubmission sessions subs)) \<ge> limit * 3
                  then Inr (foldl scanSubmission sessions subs)
             else scanPages api handle limit (page + 1) (frm + pageSize)
                    (foldl scanSubmission sessions subs))
      else Inr sessions)"
  by pat_completeness auto
termination
  by (relation "measure (\<lambda>(api, handle, limit, page, frm, sessions). maxPages - page)") auto

declare scanPages.simps [simp del]

text \<open>
  \<^verbatim>\<open>sorted.slice(0, limit)\<close>: a negative end counts from the end of the array.
\<close>

definition slice0 :: "int \<Rightarrow> 'a list \<Rightarrow> 'a list" where
  "slice0 end xs = (if end < 0 then take (nat (int (length xs) + end)) xs else take (nat end) xs)"

text \<open>
  Stage C. \<^verbatim>\<open>Array.prototype.sort\<close> is stable, and the comparator
  \<^verbatim>\<open>b.startTimeSeconds - a.startTimeSeconds\<close> orders by descending start time:
  a stable sort on the negated start time.
\<close>

definition selectTop :: "int \<Rightarrow> sessions \<Rightarrow> SimSession list" where
  "selectTop limit sessions =
     slice0 limit (sort_key (\<lambda>s. - sim_startTimeSeconds s) (map snd sessions))"

text \<open>Stage D: \<^verbatim>\<open>for (const g of gymList) if (topIds.has(g.id)) gymMap[g.id] = g\<close>.\<close>

definition buildGymMap :: "SimSession list \<Rightarrow> CFContest list \<Rightarrow> (int \<rightharpoonup> CFContest)" where
  "buildGymMap topSims gymList =
     foldl (\<lambda>gymMap g. if c_id g \<in> set (map sim_contestId topSims) then gymMap(c_id g \<mapsto> g) else gymMap)
       Map.empty gymList"

definition CAP :: nat where
  "CAP = 3000"

definition byMember :: "SimSession \<Rightarrow> CFRanklistRow \<Rightarrow> bool" where
  "byMember sim r = list_ex (\<lambda>m. m_handle m \<in> set (sim_members sim)) (p_members (r_party r))"

definition byStartAndMember :: "SimSession \<Rightarrow> CFRanklistRow \<Rightarrow> bool" where
  "byStartAndMember sim r =
     (p_startTimeSeconds (r_party r) = Some (sim_startTimeSeconds sim) \<and> byMember sim r)"

text \<open>\<^verbatim>\<open>rows.find(both) ?? rows.find(byMember)\<close>\<close>

definition teamRow :: "SimSession \<Rightarrow> CFRanklistRow list \<Rightarrow> CFRanklistRow option" where
  "teamRow sim rows =
     (case List.find (byStartAndMember sim) rows of
        Some r \<Rightarrow> Some r
      | None \<Rightarrow> List.find (byMember sim) rows)"

definition standingsEntry :: "CFStandingsResponse \<Rightarrow> CFRanklistRow \<Rightarrow> StandingsEntry" where
  "standingsEntry data row =
     (let rows = d_rows data;
          solved = length (filter (\<lambda>p. pr_points p > 0) (r_problemResults row));
          lastRank = (if rows = [] then int (length rows) else r_rank (last rows));
          total = (if length rows < CAP then Some lastRank else None)
      in \<lparr> st_rank = r_rank row, st_total = total, st_solved = solved,
           st_totalProblems = length (d_problems data) \<rparr>)"

text \<open>
  The body of \<^verbatim>\<open>for (const sim of top)\<close> with its \<^verbatim>\<open>try/catch\<close>: a throwing fetch
  leaves the cache as it was.
\<close>

definition resolveOne ::
  "cfApi \<Rightarrow> nat \<Rightarrow> SimSession \<Rightarrow> (string \<rightharpoonup> StandingsEntry) \<Rightarrow> (string \<rightharpoonup> StandingsEntry)" where
  "resolveOne api n sim standingsCache =
     (case getContestStandings api n (sim_contestId sim) of
        Inl e \<Rightarrow> standingsCache
      | Inr data \<Rightarrow>
          (case teamRow sim (d_rows data) of
             None \<Rightarrow> standingsCache
           | Some row \<Rightarrow>
               standingsCache(sessionKey (sim_contestId sim) (sim_startTimeSeconds sim)
                                \<mapsto> standingsEntry data row)))"

fun resolveStandings ::
  "cfApi \<Rightarrow> nat \<Rightarrow> SimSession list \<Rightarrow> (string \<rightharpoonup> StandingsEntry) \<Rightarrow> (string \<rightharpoonup> StandingsEntry)" where
  "resolveStandings api n [] standingsCache = standingsCache"
| "resolveStandings api n (sim # rest) standingsCache =
     resolveStandings api (n + 1) rest (resolveOne api n sim standingsCache)"

subsection \<open>Stage F: shaping\<close>

text \<open>\<^verbatim>\<open>String.prototype.repeat\<close> throws a RangeError on a negative count.\<close>

definition repeat :: "string \<Rightarrow> int \<Rightarrow> error + string" where
  "repeat s count = (if count < 0 then Inl RangeError else Inr (concat (replicate (nat count) s)))"

text \<open>The two glyphs U+2605 and U+2606, as their UTF-8 bytes.\<close>

definition starFilled :: string where
  "starFilled = [char_of (0xE2::nat), char_of (0x98::nat), char_of (0x85::nat)]"

definition starEmpty :: string where
  "starEmpty = [char_of (0xE2::nat), char_of (0x98::nat), char_of (0x86::nat)]"

text \<open>\<^verbatim>\<open>diff ? filled.repeat(diff) + empty.repeat(5 - diff) : null\<close>; 0 is falsy.\<close>

definition difficultyStars :: "int option \<Rightarrow> error + string option" where
  "difficultyStars diff =
     (case diff of
        None \<Rightarrow> Inr None
      | Some d \<Rightarrow>
          if d = 0 then Inr None
          else (case repeat starFilled d of
                  Inl e \<Rightarrow> Inl e
                | Inr a \<Rightarrow> (case repeat starEmpty (5 - d) of
                             Inl e \<Rightarrow> Inl e
                           | Inr b \<Rightarrow> Inr (Some (a @ b)))))"

text \<open>
  \<^verbatim>\<open>gym?.durationSeconds ? Math.round(gym.durationSeconds / 3600) : null\<close>.
  \<^verbatim>\<open>Math.round\<close> rounds a half upwards, which on \<open>d / 3600\<close> is the floor of
  \<open>(d + 1800) / 3600\<close>.
\<close>

definition durationHours :: "CFContest option \<Rightarrow> int option" where
  "durationHours gym =
     (case gym of
        None \<Rightarrow> None
      | Some g \<Rightarrow> if c_durationSeconds g = 0 then None
                  else Some ((c_durationSeconds g + 1800) div 3600))"

text \<open>
  \<^verbatim>\<open>Date.prototype.toISOString\<close> on a whole number of milliseconds: the proleptic
  Gregorian date of the day number, years outside 0..9999 written with a sign and
  six digits, and a RangeError beyond 8.64e15 milliseconds either side of the epoch.
\<close>

definition pad :: "nat \<Rightarrow> nat \<Rightarrow> string" where
  "pad w n = replicate (w - length (showNat n)) (CHR ''0'') @ showNat n"

definition civilFromDays :: "int \<Rightarrow> int \<times> nat \<times> nat" where
  "civilFromDays days =
     (let z = days + 719468;
          era = z div 146097;
          doe = z mod 146097;
          yoe = (doe - doe div 1460 + doe div 36524 - doe div 146096) div 365;
          doy = doe - (365 * yoe + yoe div 4 - yoe div 100);
          mp = (5 * doy + 2) div 153;
          d = doy - (153 * mp + 2) div 5 + 1;
          m = (if mp < 10 then mp + 3 else mp - 9);
          y = yoe + era * 400 + (if m \<le> 2 then 1 else 0)
      in (y, nat m, nat d))"

definition toISOString :: "int \<Rightarrow> error + string" where
  "toISOString ms =
     (if \<bar>ms\<bar> > 8640000000000000 then Inl RangeError
      else
        let (y, m, d) = civilFromDays (ms div 86400000);
            t = nat (ms mod 86400000);
            year = (if 0 \<le> y \<and> y \<le> 9999 then pad 4 (nat y)
                    else (if y < 0 then ''-'' else ''+'') @ pad 6 (nat \<bar>y\<bar>))
        in Inr (year @ ''-'' @ pad 2 m @ ''-'' @ pad 2 d @ ''T''
                  @ pad 2 (t div 3600000) @ '':'' @ pad 2 (t div 60000 mod 60) @ '':''
                  @ pad 2 (t div 1000 mod 60) @ ''.'' @ pad 3 (t mod 1000) @ ''Z''))"

text \<open>\<^verbatim>\<open>String.prototype.replace\<close> with a string pattern replaces the first occurrence.\<close>

fun replaceChar :: "char \<Rightarrow> char \<Rightarrow> string \<Rightarrow> string" where
  "replaceChar a b [] = []"
| "replaceChar a b (c # cs) = (if c = a then b # cs else c # replaceChar a b cs)"

definition simulatedAt :: "int \<Rightarrow> error + string" where
  "simulatedAt startTimeSeconds =
     (case toISOString (startTimeSeconds * 1000) of
        Inl e \<Rightarrow> Inl e
      | Inr isoStr \<Rightarrow> Inr (replaceChar (CHR ''T'') (CHR '' '') (take 16 isoStr) @ '' UTC''))"

text \<open>The callback of \<^verbatim>\<open>top.map(sim => ...)\<close>.\<close>

definition shapeGym ::
  "string \<Rightarrow> (int \<rightharpoonup> CFContest) \<Rightarrow> (string \<rightharpoonup> StandingsEntry) \<Rightarrow> SimSession
     \<Rightarrow> error + GymResult" where
  "shapeGym handle gymMap standingsCache sim =
     (let st = standingsCache (sessionKey (sim_contestId sim) (sim_startTimeSeconds sim));
          rankStr = (case st of None \<Rightarrow> None | Some e \<Rightarrow> Some (showInt (st_rank e)));
          gym = gymMap (sim_contestId sim);
          diff = (case gym of None \<Rightarrow> None | Some g \<Rightarrow> c_difficulty g)
      in case difficultyStars diff of
           Inl e \<Rightarrow> Inl e
         | Inr difficulty \<Rightarrow>
             (case simulatedAt (sim_startTimeSeconds sim) of
                Inl e \<Rightarrow> Inl e
              | Inr at \<Rightarrow>
                  Inr \<lparr> g_name = (case gym of Some g \<Rightarrow> c_name g
                                   | None \<Rightarrow> ''Gym #'' @ showInt (sim_contestId sim)),
                        g_link = ''https://codeforces.com/gym/'' @ showInt (sim_contestId sim)
                                   @ ''/standings'',
                        g_difficulty = difficulty,
                        g_durationHours = durationHours gym,
                        g_simulatedAt = at,
                        g_teamName = sim_teamName sim,
                        g_members = (if sim_members sim \<noteq> [] then sim_members sim else [handle]),
                        g_rank = rankStr,
                        g_solved = (case st of
                                      None \<Rightarrow> None
                                    | Some e \<Rightarrow> Some (showNat (st_solved e) @ ''/''
                                                        @ showNat (st_totalProblems e))) \<rparr>))"

text \<open>\<^verbatim>\<open>Array.prototype.map\<close> with a callback that may throw: the first throw ends it.\<close>

fun mapThrowing :: "('a \<Rightarrow> error + 'b) \<Rightarrow> 'a list \<Rightarrow> error + 'b list" where
  "mapThrowing f [] = Inr []"
| "mapThrowing f (x # xs) =
     (case f x of
        Inl e \<Rightarrow> Inl e
      | Inr y \<Rightarrow> (case mapThrowing f xs of Inl e \<Rightarrow> Inl e | Inr ys \<Rightarrow> Inr (y # ys)))"

subsection \<open>The whole resolver\<close>

definition getGymSimulations :: "cfApi \<Rightarrow> string \<Rightarrow> int \<Rightarrow> error + GymSimulationsResult" where
  "getGymSimulations api handle limit =
     (case scanPages api handle limit 0 1 [] of
        Inl e \<Rightarrow> Inl e
      | Inr sessions \<Rightarrow>
          if sessions = [] then Inr \<lparr> res_handle = handle, res_gyms = [] \<rparr>
          else
            (case getContestList api True of
               Inl e \<Rightarrow> Inl e
             | Inr gymList \<Rightarrow>
                 (case mapThrowing
                         (shapeGym handle (buildGymMap (selectTop limit sessions) gymList)
                            (resolveStandings api 0 (selectTop limit sessions) Map.empty))
                         (selectTop limit sessions) of
                    Inl e \<Rightarrow> Inl e
                  | Inr gyms \<Rightarrow> Inr \<lparr> res_handle = handle, res_gyms = gyms \<rparr>)))"

section \<open>History trimmer (trimHistory)\<close>

text \<open>
  \<^verbatim>\<open>trimHistory\<close> compares messages with \<^verbatim>\<open>!==\<close>, that is by object identity, so the
  model computes with references: the reference of a message is its slot in \<^verbatim>\<open>msgs\<close>
  (every slot of a parsed request body is an object of its own), and \<open>None\<close> is
  \<^verbatim>\<open>undefined\<close>, which is what \<^verbatim>\<open>msgs[msgs.length - 1]\<close> reads from an empty array.
\<close>

definition MAX_HISTORY_TURNS :: nat where
  "MAX_HISTORY_TURNS = 4"

function pairsFrom :: "ConversationMessage list \<Rightarrow> nat \<Rightarrow> (nat \<times> nat) list" where
  "pairsFrom msgs i =
     (if i + 1 < length msgs then
        (if msg_role (msgs ! i) = User \<and> msg_role (msgs ! (i + 1)) = Assistant
         then [(i, i + 1)] else [])
        @ pairsFrom msgs (i + 2)
      else [])"
  by pat_completeness auto
termination
  by (relation "measure (\<lambda>(msgs, i). length msgs - i)") auto

declare pairsFrom.simps [simp del]

text \<open>\<^verbatim>\<open>pairs.slice(-n)\<close>: the last \<open>n\<close> elements.\<close>

definition sliceLast :: "nat \<Rightarrow> 'a list \<Rightarrow> 'a list" where
  "sliceLast n xs = drop (length xs - n) xs"

definition trimHistoryRefs :: "ConversationMessage list \<Rightarrow> nat option list" where
  "trimHistoryRefs msgs =
     (let pairs = pairsFrom msgs 0;
          lastMsg = (if msgs = [] then None else Some (length msgs - 1));
          recentPairs = sliceLast MAX_HISTORY_TURNS pairs;
          trimmed = concat (map (\<lambda>(a, b). [Some a, Some b]) recentPairs)
      in if trimmed = [] \<or> last trimmed \<noteq> lastMsg then trimmed @ [lastMsg] else trimmed)"

definition trimHistory :: "ConversationMessage list \<Rightarrow> ConversationMessage option list" where
  "trimHistory msgs = map (map_option (\<lambda>i. msgs ! i)) (trimHistoryRefs msgs)"

section \<open>Streaming agent loop (streamAgent)\<close>

subsection \<open>The model provider's stream\<close>

datatype contentBlock = Tool_use string string | Other_block

datatype delta = Text_delta string | Input_json_delta string | Other_delta

datatype RawMessageStreamEvent =
    Content_block_start contentBlock
  | Content_block_delta delta
  | Content_block_stop
  | Message_delta "string option"
  | Other_event

text \<open>
  One call of \<^verbatim>\<open>client.messages.stream(params)\<close>: the events it yields, then either
  the end of the stream or the error it throws.
\<close>

record attempt =
  a_events :: "RawMessageStreamEvent list"
  a_failure :: "ApiError option"

text \<open>\<^verbatim>\<open>String.prototype.includes\<close>: the argument occurs as a contiguous substring.\<close>

fun includes_str :: "string \<Rightarrow> string \<Rightarrow> bool" where
  "includes_str [] sub = (sub = [])"
| "includes_str (c # cs) sub = (take (length sub) (c # cs) = sub \<or> includes_str cs sub)"

definition is429 :: "ApiError \<Rightarrow> bool" where
  "is429 e =
     (e_status e = Some 429 \<or> (case e_message e of None \<Rightarrow> False | Some m \<Rightarrow> includes_str m ''rate_limit''))"

subsection \<open>streamEventsWithRetry\<close>

text \<open>
  The generator is modelled by the sequence of things it does, in order, and the way it
  ends. \<open>Open k\<close> is attempt \<open>k\<close> calling the provider, \<open>Yield ev k\<close> hands event \<open>ev\<close> of
  that stream to the consumer, \<open>Write\<close> is a \<^verbatim>\<open>writeSSE\<close>, \<open>Sleep\<close> the awaited timer in
  milliseconds. \<open>maxRetries\<close> is a count; its only caller passes the default 3.
\<close>

datatype genAction =
    Open nat
  | Yield RawMessageStreamEvent nat
  | Write SSEEvent
  | Sleep nat

datatype genOutcome = Return | Throw error

definition prependActions ::
  "genAction list \<Rightarrow> genAction list \<times> genOutcome \<Rightarrow> genAction list \<times> genOutcome" where
  "prependActions acts r = (acts @ fst r, snd r)"

function streamEventsWithRetry ::
  "(nat \<Rightarrow> attempt) \<Rightarrow> nat \<Rightarrow> nat \<Rightarrow> genAction list \<times> genOutcome" where
  "streamEventsWithRetry provider maxRetries attempt =
     (if attempt \<le> maxRetries then
        prependActions (Open attempt # map (\<lambda>ev. Yield ev attempt) (a_events (provider attempt)))
          (case a_failure (provider attempt) of
             None \<Rightarrow> ([], Return)
           | Some err \<Rightarrow>
               if is429 err \<and> attempt < maxRetries then
                 prependActions
                   [Write (SSE_retrying (min 60 (15 * (attempt + 1)))),
                    Sleep (min 60 (15 * (attempt + 1)) * 1000)]
                   (streamEventsWithRetry provider maxRetries (attempt + 1))
               else ([], Throw (Thrown err)))
      else ([], Return))"
  by pat_completeness auto
termination
  by (relation "measure (\<lambda>(provider, maxRetries, attempt). maxRetries + 1 - attempt)") auto

declare streamEventsWithRetry.simps [simp del]

subsection \<open>One turn of the loop\<close>

text \<open>
  \<open>tu_input\<close> keeps the accumulated argument text: \<^verbatim>\<open>JSON.parse\<close> of it (or \<^verbatim>\<open>{}\<close> when
  it is empty or malformed) is a function of that text alone and is only handed on to
  the tool.
\<close>

record ToolUse =
  tu_id :: string
  tu_name :: string
  tu_input :: string

record turnState =
  toolUseBlocks :: "ToolUse list"
  currentToolUse :: "ToolUse option"
  inputJsonBuffer :: string
  stopReason :: "string option"
  lastStream :: "nat option"

definition initialTurn :: turnState where
  "initialTurn =
     \<lparr> toolUseBlocks = [], currentToolUse = None, inputJsonBuffer = [],
       stopReason = None, lastStream = None \<rparr>"

text \<open>The body of \<^verbatim>\<open>for await (const { event, stream } of ...)\<close>: new state and what it writes.\<close>

fun handleEvent :: "turnState \<Rightarrow> RawMessageStreamEvent \<Rightarrow> turnState \<times> SSEEvent list" where
  "handleEvent t (Content_block_start (Tool_use ident name)) =
     (t\<lparr> currentToolUse := Some \<lparr> tu_id = ident, tu_name = name, tu_input = [] \<rparr>,
         inputJsonBuffer := [] \<rparr>,
      [SSE_tool_call name])"
| "handleEvent t (Content_block_start Other_block) = (t, [])"
| "handleEvent t (Content_block_delta (Text_delta txt)) = (t, [SSE_text txt])"
| "handleEvent t (Content_block_delta (Input_json_delta partial_json)) =
     (t\<lparr> inputJsonBuffer := inputJsonBuffer t @ partial_json \<rparr>, [])"
| "handleEvent t (Content_block_delta Other_delta) = (t, [])"
| "handleEvent t Content_block_stop =
     (case currentToolUse t of
        None \<Rightarrow> (t, [])
      | Some tu \<Rightarrow>
          (t\<lparr> toolUseBlocks := toolUseBlocks t @ [tu\<lparr> tu_input := inputJsonBuffer t \<rparr>],
              currentToolUse := None, inputJsonBuffer := [] \<rparr>, []))"
| "handleEvent t (Message_delta reason) = (t\<lparr> stopReason := reason \<rparr>, [])"
| "handleEvent t Other_event = (t, [])"

text \<open>The consumer run over the generator's actions, collecting every \<^verbatim>\<open>writeSSE\<close> in order.\<close>

fun consume :: "turnState \<Rightarrow> genAction list \<Rightarrow> turnState \<times> SSEEvent list" where
  "consume t [] = (t, [])"
| "consume t (Open k # acts) = consume t acts"
| "consume t (Sleep ms # acts) = consume t acts"
| "consume t (Write ev # acts) = (fst (consume t acts), ev # snd (consume t acts))"
| "consume t (Yield ev k # acts) =
     (fst (consume (fst (handleEvent (t\<lparr> lastStream := Some k \<rparr>) ev)) acts),
      snd (handleEvent (t\<lparr> lastStream := Some k \<rparr>) ev)
        @ snd (consume (fst (handleEvent (t\<lparr> lastStream := Some k \<rparr>) ev)) acts))"

text \<open>
  What the loop cannot compute is a parameter, indexed by the turn: the provider's
  streams (per attempt), whether \<^verbatim>\<open>finalMessage()\<close> of the last stream resolves, and the
  result of \<^verbatim>\<open>executeTool\<close> for the \<open>k\<close>-th collected call (\<open>Inl\<close> the message of the error
  it throws). \<^verbatim>\<open>anthropicMessages\<close> is only ever sent to the provider, so it is not
  tracked beyond its construction.
\<close>

record agentEnv =
  stream :: "nat \<Rightarrow> nat \<Rightarrow> attempt"
  finalMessage :: "nat \<Rightarrow> nat \<Rightarrow> error option"
  executeTool :: "nat \<Rightarrow> nat \<Rightarrow> ToolUse \<Rightarrow> string + string"

fun runTools :: "agentEnv \<Rightarrow> nat \<Rightarrow> nat \<Rightarrow> ToolUse list \<Rightarrow> SSEEvent list" where
  "runTools env turn k [] = []"
| "runTools env turn k (tool # tools) =
     (case executeTool env turn k tool of
        Inr result \<Rightarrow> SSE_tool_result (tu_name tool) True None
      | Inl msg \<Rightarrow> SSE_tool_result (tu_name tool) False (Some msg))
     # runTools env turn (k + 1) tools"

datatype turnEnd = Continue | Stop | Failed error

definition runTurn :: "agentEnv \<Rightarrow> nat \<Rightarrow> SSEEvent list \<times> turnEnd" where
  "runTurn env turn =
     (let gen = streamEventsWithRetry (stream env turn) 3 0;
          t = fst (consume initialTurn (fst gen));
          written = snd (consume initialTurn (fst gen))
      in case snd gen of
           Throw e \<Rightarrow> (written, Failed e)
         | Return \<Rightarrow>
             (case lastStream t of
                None \<Rightarrow> (written, Failed TypeError)
              | Some k \<Rightarrow>
                  (case finalMessage env turn k of
                     Some e \<Rightarrow> (written, Failed e)
                   | None \<Rightarrow>
                       if stopReason t = Some ''tool_use'' \<and> toolUseBlocks t \<noteq> []
                       then (written @ runTools env turn 0 (toolUseBlocks t), Continue)
                       else (written, Stop))))"

subsection \<open>The loop and its \<^verbatim>\<open>try/catch\<close>\<close>

text \<open>
  \<^verbatim>\<open>while (continueLoop)\<close> has no bound: the model may ask for tools for ever. The loop
  is a partial function, \<open>None\<close> when it does not end; otherwise everything written and
  the error that left the loop, if any.
\<close>

partial_function (option) agentLoop ::
  "agentEnv \<Rightarrow> nat \<Rightarrow> SSEEvent list \<Rightarrow> (SSEEvent list \<times> error option) option" where
  "agentLoop env turn written =
     (case snd (runTurn env turn) of
        Continue \<Rightarrow> agentLoop env (turn + 1) (written @ fst (runTurn env turn))
      | Stop \<Rightarrow> Some (written @ fst (runTurn env turn), None)
      | Failed e \<Rightarrow> Some (written @ fst (runTurn env turn), Some e))"

text \<open>\<^verbatim>\<open>e.message\<close> of what was thrown; the runtime's own errors carry the engine's text.\<close>

definition errorMessage :: "error \<Rightarrow> string option" where
  "errorMessage e =
     (case e of
        Thrown ae \<Rightarrow> e_message ae
      | TypeError \<Rightarrow> Some ''TypeError''
      | RangeError \<Rightarrow> Some ''RangeError'')"

text \<open>
  \<^verbatim>\<open>trimHistory(messages).map(m => ({ role: m.role, content: m.content }))\<close>, which
  stands before the \<^verbatim>\<open>try\<close>: reading a property of \<^verbatim>\<open>undefined\<close> throws a TypeError.
\<close>

definition anthropicMessages ::
  "ConversationMessage list \<Rightarrow> error + (role \<times> string) list" where
  "anthropicMessages messages =
     mapThrowing (\<lambda>m. case m of None \<Rightarrow> Inl TypeError
                               | Some c \<Rightarrow> Inr (msg_role c, msg_content c))
       (trimHistory messages)"

text \<open>
  How the promise of \<^verbatim>\<open>streamAgent\<close> settles, and everything written to the SSE writer
  until then.
\<close>

datatype settled = Resolved | Rejected error

definition streamAgent ::
  "agentEnv \<Rightarrow> ConversationMessage list \<Rightarrow> (SSEEvent list \<times> settled) option" where
  "streamAgent env messages =
     (case anthropicMessages messages of
        Inl e \<Rightarrow> Some ([], Rejected e)
      | Inr ms \<Rightarrow>
          (case agentLoop env 0 [] of
             None \<Rightarrow> None
           | Some (written, None) \<Rightarrow> Some (written @ [SSE_done], Resolved)
           | Some (written, Some e) \<Rightarrow>
               Some (written @ [SSE_error (errorMessage e), SSE_done], Resolved)))"

section \<open>Notions used in the statements\<close>

text \<open>
  The invariant of the \<^verbatim>\<open>sessions\<close> map: no key twice, and every entry filed under the
  key of its own contest and start time.
\<close>

definition keyed :: "sessions \<Rightarrow> bool" where
  "keyed sessions =
     (distinct (map fst sessions) \<and>
      (\<forall>(k, v) \<in> set sessions. k = sessionKey (sim_contestId v) (sim_startTimeSeconds v)))"

text \<open>The key under which \<^verbatim>\<open>standingsCache\<close> files and looks up a session.\<close>

definition simKey :: "SimSession \<Rightarrow> string" where
  "simKey sim = sessionKey (sim_contestId sim) (sim_startTimeSeconds sim)"

text \<open>
  What one iteration of the standings loop finds for a session: nothing when the fetch
  throws or no row matches, otherwise the entry built from the matched row.
\<close>

definition matched :: "cfApi \<Rightarrow> nat \<Rightarrow> SimSession \<Rightarrow> StandingsEntry option" where
  "matched api n sim =
     (case getContestStandings api n (sim_contestId sim) of
        Inl e \<Rightarrow> None
      | Inr data \<Rightarrow> map_option (standingsEntry data) (teamRow sim (d_rows data)))"

text \<open>
  The references \<^verbatim>\<open>recentPairs.flat()\<close> holds for a list of pairs of slots.
\<close>

definition refsOf :: "(nat \<times> nat) list \<Rightarrow> nat option list" where
  "refsOf ps = concat (map (\<lambda>(a, b). [Some a, Some b]) ps)"

text \<open>
  The shape of a run of \<^verbatim>\<open>streamEventsWithRetry\<close>: what the generator does in an
  attempt that is retried, and in its last attempt. \<open>isOpen\<close> tells the calls of the
  provider from its other actions, so that they can be counted.
\<close>

definition retrySegment :: "(nat \<Rightarrow> attempt) \<Rightarrow> nat \<Rightarrow> genAction list" where
  "retrySegment provider k =
     Open k # map (\<lambda>ev. Yield ev k) (a_events (provider k))
     @ [Write (SSE_retrying (min 60 (15 * (k + 1)))), Sleep (min 60 (15 * (k + 1)) * 1000)]"

definition lastSegment :: "(nat \<Rightarrow> attempt) \<Rightarrow> nat \<Rightarrow> genAction list" where
  "lastSegment provider k = Open k # map (\<lambda>ev. Yield ev k) (a_events (provider k))"

definition isOpen :: "genAction \<Rightarrow> bool" where
  "isOpen act = (case act of Open k \<Rightarrow> True | _ \<Rightarrow> False)"

section \<open>The test fixture (tests/fixtures/cf-responses.js)\<close>

text \<open>
  The data of the repository's own tests, used to instantiate the theorems below.
  The team name is written without its accent.
\<close>

definition T1 :: int where "T1 = 1771797960"

definition team :: "CFMember list" where
  "team = [\<lparr>m_handle = ''automac''\<rparr>, \<lparr>m_handle = ''elpepe123''\<rparr>, \<lparr>m_handle = ''juancs''\<rparr>]"

definition SUBS_ONE_SIM :: "CFSubmission list" where
  "SUBS_ONE_SIM =
     [\<lparr> s_contestId = Some 105789, s_creationTimeSeconds = T1 + 100,
         s_author = \<lparr> p_members = team, p_participantType = VIRTUAL,
                      p_teamName = Some ''Que bendicion'', p_startTimeSeconds = Some T1 \<rparr> \<rparr>,
      \<lparr> s_contestId = Some 105789, s_creationTimeSeconds = T1 + 200,
         s_author = \<lparr> p_members = team, p_participantType = VIRTUAL,
                      p_teamName = Some ''Que bendicion'', p_startTimeSeconds = Some T1 \<rparr> \<rparr>,
      \<lparr> s_contestId = Some 105789, s_creationTimeSeconds = T1 + 9999,
         s_author = \<lparr> p_members = [\<lparr>m_handle = ''automac''\<rparr>], p_participantType = PRACTICE,
                      p_teamName = None, p_startTimeSeconds = Some (T1 + 9999) \<rparr> \<rparr>,
      \<lparr> s_contestId = Some 2172, s_creationTimeSeconds = T1 + 1000,
         s_author = \<lparr> p_members = [\<lparr>m_handle = ''automac''\<rparr>], p_participantType = VIRTUAL,
                      p_teamName = None, p_startTimeSeconds = Some (T1 + 1000) \<rparr> \<rparr>]"

definition GYM_LIST :: "CFContest list" where
  "GYM_LIST =
     [\<lparr> c_id = 105789, c_name = ''The 2025 ICPC Latin America Championship'',
         c_durationSeconds = 18000, c_difficulty = Some 3 \<rparr>,
      \<lparr> c_id = 106193, c_name = ''2025-2026 ICPC NERC (NEERC), Northern Subregionals'',
         c_durationSeconds = 18000, c_difficulty = Some 2 \<rparr>]"

definition solvedFirst :: "nat \<Rightarrow> CFProblemResult list" where
  "solvedFirst k = map (\<lambda>i. \<lparr> pr_points = (if i < k then 1 else 0) \<rparr>) [0..<12]"

definition STANDINGS_105789 :: CFStandingsResponse where
  "STANDINGS_105789 =
     \<lparr> d_problems = map (\<lambda>i. \<lparr> pb_index = [char_of (65 + i)] \<rparr>) [0..<12],
       d_rows =
         [\<lparr> r_party = \<lparr> p_members = [\<lparr>m_handle = ''user_x''\<rparr>, \<lparr>m_handle = ''user_y''\<rparr>],
                        p_participantType = VIRTUAL, p_teamName = None,
                        p_startTimeSeconds = Some T1 \<rparr>,
             r_rank = 120, r_problemResults = solvedFirst 7 \<rparr>,
          \<lparr> r_party = \<lparr> p_members = team, p_participantType = VIRTUAL, p_teamName = None,
                        p_startTimeSeconds = Some T1 \<rparr>,
             r_rank = 177, r_problemResults = solvedFirst 6 \<rparr>,
          \<lparr> r_party = \<lparr> p_members = [\<lparr>m_handle = ''last_team''\<rparr>],
                        p_participantType = VIRTUAL, p_teamName = None,
                        p_startTimeSeconds = Some (T1 - 999) \<rparr>,
             r_rank = 350, r_problemResults = [] \<rparr>] \<rparr>"

definition fixtureApi :: cfApi where
  "fixtureApi =
     \<lparr> getUserSubmissions = (\<lambda>handle count frm. Inr SUBS_ONE_SIM),
       getContestList = (\<lambda>gym. Inr GYM_LIST),
       getContestStandings = (\<lambda>n contestId. Inr STANDINGS_105789) \<rparr>"

text \<open>
  Further inputs in the style of the fixture: two records under one key with different
  teams, two records without an author start time, the two-session and the
  empty-member-list inputs of the tests, and two contests started in the same second.
\<close>

definition SUBS_SAME_KEY :: "CFSubmission list" where
  "SUBS_SAME_KEY =
     [\<lparr> s_contestId = Some 105789, s_creationTimeSeconds = T1 + 100,
         s_author = \<lparr> p_members = [\<lparr>m_handle = ''juancs''\<rparr>, \<lparr>m_handle = ''automac''\<rparr>],
                      p_participantType = VIRTUAL,
                      p_teamName = Some ''first'', p_startTimeSeconds = Some T1 \<rparr> \<rparr>,
      \<lparr> s_contestId = Some 105789, s_creationTimeSeconds = T1 + 200,
         s_author = \<lparr> p_members = [\<lparr>m_handle = ''elpepe123''\<rparr>],
                      p_participantType = VIRTUAL,
                      p_teamName = Some ''second'', p_startTimeSeconds = Some T1 \<rparr> \<rparr>]"

definition SUBS_NO_START :: "CFSubmission list" where
  "SUBS_NO_START =
     [\<lparr> s_contestId = Some 105789, s_creationTimeSeconds = T1 + 100,
         s_author = \<lparr> p_members = team, p_participantType = VIRTUAL,
                      p_teamName = None, p_startTimeSeconds = None \<rparr> \<rparr>,
      \<lparr> s_contestId = Some 105789, s_creationTimeSeconds = T1 + 200,
         s_author = \<lparr> p_members = team, p_participantType = VIRTUAL,
                      p_teamName = None, p_startTimeSeconds = None \<rparr> \<rparr>]"

definition T2 :: int where "T2 = T1 - 7 * 24 * 3600"

definition virtualSub :: "int \<Rightarrow> int \<Rightarrow> int \<Rightarrow> CFMember list \<Rightarrow> CFSubmission" where
  "virtualSub contestId created started members =
     \<lparr> s_contestId = Some contestId, s_creationTimeSeconds = created,
       s_author = \<lparr> p_members = members, p_participantType = VIRTUAL,
                    p_teamName = Some ''Que bendicion'', p_startTimeSeconds = Some started \<rparr> \<rparr>"

definition SUBS_TWO_SIMS :: "CFSubmission list" where
  "SUBS_TWO_SIMS = [virtualSub 105789 (T1 + 100) T1 team, virtualSub 106193 (T2 + 100) T2 team]"

definition STANDINGS_106193 :: CFStandingsResponse where
  "STANDINGS_106193 =
     \<lparr> d_problems = map (\<lambda>i. \<lparr> pb_index = [char_of (65 + i)] \<rparr>) [0..<12],
       d_rows =
         [\<lparr> r_party = \<lparr> p_members = team, p_participantType = VIRTUAL, p_teamName = None,
                        p_startTimeSeconds = Some T2 \<rparr>,
             r_rank = 183, r_problemResults = solvedFirst 6 \<rparr>,
          \<lparr> r_party = \<lparr> p_members = [\<lparr>m_handle = ''other''\<rparr>],
                        p_participantType = VIRTUAL, p_teamName = None,
                        p_startTimeSeconds = Some (T2 - 100) \<rparr>,
             r_rank = 400, r_problemResults = [] \<rparr>] \<rparr>"

definition twoSimsApi :: cfApi where
  "twoSimsApi =
     \<lparr> getUserSubmissions = (\<lambda>handle count frm. Inr SUBS_TWO_SIMS),
       getContestList = (\<lambda>gym. Inr GYM_LIST),
       getContestStandings =
         (\<lambda>n contestId. if n = 0 then Inr STANDINGS_105789 else Inr STANDINGS_106193) \<rparr>"

definition soloApi :: cfApi where
  "soloApi =
     \<lparr> getUserSubmissions = (\<lambda>handle count frm. Inr [virtualSub 105789 T1 T1 []]),
       getContestList = (\<lambda>gym. Inr GYM_LIST),
       getContestStandings = (\<lambda>n contestId. Inr STANDINGS_105789) \<rparr>"

definition tieApi :: cfApi where
  "tieApi =
     \<lparr> getUserSubmissions =
         (\<lambda>handle count frm. Inr [virtualSub 105789 (T1 + 100) T1 team,
                                  virtualSub 106193 (T1 + 200) T1 team]),
       getContestList = (\<lambda>gym. Inr GYM_LIST),
       getContestStandings =
         (\<lambda>n contestId. if n = 0 then Inr STANDINGS_105789 else Inr STANDINGS_106193) \<rparr>"

text \<open>The sessions and results these inputs lead to.\<close>

definition session105789 :: SimSession where
  "session105789 =
     \<lparr> sim_contestId = 105789, sim_startTimeSeconds = T1,
       sim_teamName = Some ''Que bendicion'',
       sim_members = [''automac'', ''elpepe123'', ''juancs''] \<rparr>"

definition session106193 :: SimSession where
  "session106193 =
     \<lparr> sim_contestId = 106193, sim_startTimeSeconds = T2,
       sim_teamName = Some ''Que bendicion'',
       sim_members = [''automac'', ''elpepe123'', ''juancs''] \<rparr>"

definition twoSessions :: sessions where
  "twoSessions = [(''105789_1771797960'', session105789), (''106193_1771193160'', session106193)]"

definition tieSessions :: sessions where
  "tieSessions =
     [(''105789_1771797960'', session105789),
      (''106193_1771797960'', session106193\<lparr> sim_startTimeSeconds := T1 \<rparr>)]"

definition gym105789 :: GymResult where
  "gym105789 =
     \<lparr> g_name = ''The 2025 ICPC Latin America Championship'',
       g_link = ''https://codeforces.com/gym/105789/standings'',
       g_difficulty = Some (concat [starFilled, starFilled, starFilled, starEmpty, starEmpty]),
       g_durationHours = Some 5,
       g_simulatedAt = ''2026-02-22 22:06 UTC'',
       g_teamName = Some ''Que bendicion'',
       g_members = [''automac'', ''elpepe123'', ''juancs''],
       g_rank = Some ''177'',
       g_solved = Some ''6/12'' \<rparr>"

definition gym106193 :: GymResult where
  "gym106193 =
     \<lparr> g_name = ''2025-2026 ICPC NERC (NEERC), Northern Subregionals'',
       g_link = ''https://codeforces.com/gym/106193/standings'',
       g_difficulty = Some (concat [starFilled, starFilled, starEmpty, starEmpty, starEmpty]),
       g_durationHours = Some 5,
       g_simulatedAt = ''2026-02-15 22:06 UTC'',
       g_teamName = Some ''Que bendicion'',
       g_members = [''automac'', ''elpepe123'', ''juancs''],
       g_rank = Some ''183'',
       g_solved = Some ''6/12'' \<rparr>"

text \<open>A conversation of five answered questions and a sixth, still open.\<close>

definition userMsg :: "string \<Rightarrow> ConversationMessage" where
  "userMsg c = \<lparr> msg_role = User, msg_content = c \<rparr>"

definition assistantMsg :: "string \<Rightarrow> ConversationMessage" where
  "assistantMsg c = \<lparr> msg_role = Assistant, msg_content = c \<rparr>"

definition conversation11 :: "ConversationMessage list" where
  "conversation11 =
     [userMsg ''q0'', assistantMsg ''a0'', userMsg ''q1'', assistantMsg ''a1'',
      userMsg ''q2'', assistantMsg ''a2'', userMsg ''q3'', assistantMsg ''a3'',
      userMsg ''q4'', assistantMsg ''a4'', userMsg ''q5'']"

text \<open>
  The same conversation with one more question, \<open>x\<close>, that has no answer: two user
  messages in a row, after which the turns stand at the slots \<open>(3, 4), (5, 6), ...\<close>.
\<close>

definition unanswered12 :: "ConversationMessage list" where
  "unanswered12 =
     [userMsg ''q0'', assistantMsg ''a0'', userMsg ''x'',
      userMsg ''q1'', assistantMsg ''a1'', userMsg ''q2'', assistantMsg ''a2'',
      userMsg ''q3'', assistantMsg ''a3'', userMsg ''q4'', assistantMsg ''a4'',
      userMsg ''q5'']"

text \<open>
  Providers for the retry wrapper: two rate-limit failures and then an answer, a failure
  that is no rate limit, and rate limits without end.
\<close>

definition rateLimitedTwice :: "nat \<Rightarrow> attempt" where
  "rateLimitedTwice k =
     (if k = 0 then
        \<lparr> a_events = [], a_failure = Some \<lparr> e_status = Some 429, e_message = None \<rparr> \<rparr>
      else if k = 1 then
        \<lparr> a_events = [Content_block_delta (Text_delta ''Let me check'')],
          a_failure = Some \<lparr> e_status = None,
                             e_message = Some ''rate_limit_error: too many requests'' \<rparr> \<rparr>
      else
        \<lparr> a_events = [Content_block_delta (Text_delta ''Hello''),
                      Message_delta (Some ''end_turn'')],
          a_failure = None \<rparr>)"

definition serverOverloaded :: "nat \<Rightarrow> attempt" where
  "serverOverloaded k =
     \<lparr> a_events = [], a_failure = Some \<lparr> e_status = Some 529, e_message = Some ''overloaded'' \<rparr> \<rparr>"

definition alwaysRateLimited :: "nat \<Rightarrow> attempt" where
  "alwaysRateLimited k =
     \<lparr> a_events = [], a_failure = Some \<lparr> e_status = Some 429, e_message = None \<rparr> \<rparr>"

text \<open>
  Two environments for the whole loop: a turn that calls a tool followed by a turn that
  answers, and a provider that fails outright.
\<close>

definition toolTurn :: attempt where
  "toolTurn =
     \<lparr> a_events =
         [Content_block_delta (Text_delta ''Let me check''),
          Content_block_start (Tool_use ''toolu_1'' ''get_gym_simulations''),
          Content_block_delta (Input_json_delta ''{\"handle\":''),
          Content_block_delta (Input_json_delta ''\"automac\"}''),
          Content_block_stop,
          Message_delta (Some ''tool_use'')],
       a_failure = None \<rparr>"

definition answerTurn :: attempt where
  "answerTurn =
     \<lparr> a_events = [Content_block_delta (Text_delta ''Here are the gyms''),
                    Message_delta (Some ''end_turn'')],
       a_failure = None \<rparr>"

definition demoEnv :: agentEnv where
  "demoEnv =
     \<lparr> stream = (\<lambda>turn k. if turn = 0 then toolTurn else answerTurn),
       finalMessage = (\<lambda>turn k. None),
       executeTool = (\<lambda>turn k tool. Inr ''{}'') \<rparr>"

definition failingEnv :: agentEnv where
  "failingEnv =
     \<lparr> stream = (\<lambda>turn k.
         \<lparr> a_events = [Content_block_delta (Text_delta ''Let me'')],
           a_failure = Some \<lparr> e_status = Some 529, e_message = Some ''overloaded'' \<rparr> \<rparr>),
       finalMessage = (\<lambda>turn k. None),
       executeTool = (\<lambda>turn k tool. Inr ''{}'') \<rparr>"

definition question :: "ConversationMessage list" where
  "question = [\<lparr> msg_role = User, msg_content = ''last gyms of automac?'' \<rparr>]"

section \<open>Decimal rendering is injective\<close>

lemma digitChar_inj: "a < 10 \<Longrightarrow> b < 10 \<Longrightarrow> digitChar a = digitChar b \<Longrightarrow> a = b"
  unfolding digitChar_def
  using nth_eq_iff_index_eq [of "''0123456789''" a b] by simp

lemma digitChar_in: "a < 10 \<Longrightarrow> digitChar a \<in> set ''0123456789''"
  unfolding digitChar_def using nth_mem [of a "''0123456789''"] by simp

lemma showNat_ne: "showNat n \<noteq> []"
  by (subst showNat.simps) simp

lemma showNat_digits: "set (showNat n) \<subseteq> set ''0123456789''"
proof (induction n rule: showNat.induct)
  case (1 n)
  show ?case
  proof (cases "n < 10")
    case True
    then show ?thesis using digitChar_in [of n] by (subst showNat.simps) simp
  next
    case False
    have "n mod 10 < 10" by simp
    then have "digitChar (n mod 10) \<in> set ''0123456789''" by (rule digitChar_in)
    with False 1 show ?thesis by (subst showNat.simps) simp
  qed
qed

lemma showNat_inj: "showNat n = showNat m \<Longrightarrow> n = m"
proof (induction n arbitrary: m rule: showNat.induct)
  case (1 n)
  show ?case
  proof (cases "n < 10")
    case n: True
    show ?thesis
    proof (cases "m < 10")
      case True
      with n "1.prems" show ?thesis
        by (simp add: showNat.simps [of n] showNat.simps [of m] digitChar_inj)
    next
      case False
      with n "1.prems" showNat_ne [of "m div 10"] show ?thesis
        by (simp add: showNat.simps [of n] showNat.simps [of m])
    qed
  next
    case n: False
    show ?thesis
    proof (cases "m < 10")
      case True
      with n "1.prems" showNat_ne [of "n div 10"] show ?thesis
        by (simp add: showNat.simps [of n] showNat.simps [of m])
    next
      case False
      with n "1.prems" have eq: "showNat (n div 10) = showNat (m div 10)"
        and d: "digitChar (n mod 10) = digitChar (m mod 10)"
        by (simp_all add: showNat.simps [of n] showNat.simps [of m])
      from "1.IH" [OF n eq] have "n div 10 = m div 10" .
      moreover from d have "n mod 10 = m mod 10" by (intro digitChar_inj) simp_all
      ultimately show ?thesis by (metis div_mult_mod_eq)
    qed
  qed
qed

lemma showNat_notin: "c \<notin> set ''0123456789'' \<Longrightarrow> c \<notin> set (showNat n)"
  using showNat_digits [of n] by blast

lemma showNat_no_minus: "showNat n \<noteq> CHR ''-'' # cs"
proof
  assume "showNat n = CHR ''-'' # cs"
  then have "CHR ''-'' \<in> set (showNat n)" by simp
  moreover have "CHR ''-'' \<notin> set (showNat n)" by (rule showNat_notin) simp
  ultimately show False by simp
qed

lemma showInt_no_underscore: "CHR ''_'' \<notin> set (showInt i)"
proof -
  have "\<And>n. CHR ''_'' \<notin> set (showNat n)" by (rule showNat_notin) simp
  then show ?thesis by (simp add: showInt_def)
qed

lemma showInt_inj: "showInt i = showInt j \<Longrightarrow> i = j"
proof -
  assume a: "showInt i = showInt j"
  show ?thesis
  proof (cases "i < 0")
    case i: True
    show ?thesis
    proof (cases "j < 0")
      case True
      with i a have "nat (- i) = nat (- j)" by (simp add: showInt_def showNat_inj)
      with i True show ?thesis by simp
    next
      case False
      with i a have "showNat (nat j) = CHR ''-'' # showNat (nat (- i))" by (simp add: showInt_def)
      then show ?thesis by (simp add: showNat_no_minus)
    qed
  next
    case i: False
    show ?thesis
    proof (cases "j < 0")
      case True
      with i a have "showNat (nat i) = CHR ''-'' # showNat (nat (- j))" by (simp add: showInt_def)
      then show ?thesis by (simp add: showNat_no_minus)
    next
      case False
      with i a have "nat i = nat j" by (simp add: showInt_def showNat_inj)
      with i False show ?thesis by simp
    qed
  qed
qed

lemma sessionKey_inj: "sessionKey c t = sessionKey c' t' \<longleftrightarrow> c = c' \<and> t = t'"
proof
  assume a: "sessionKey c t = sessionKey c' t'"
  have tw: "\<And>i r. takeWhile (\<lambda>x. x \<noteq> CHR ''_'') (showInt i @ CHR ''_'' # r) = showInt i"
  proof -
    fix i r
    have "\<And>x. x \<in> set (showInt i) \<Longrightarrow> x \<noteq> CHR ''_''" using showInt_no_underscore by blast
    then show "takeWhile (\<lambda>x. x \<noteq> CHR ''_'') (showInt i @ CHR ''_'' # r) = showInt i"
      by (simp add: takeWhile_append2)
  qed
  from a have e: "showInt c @ CHR ''_'' # showInt t = showInt c' @ CHR ''_'' # showInt t'"
    by (simp add: sessionKey_def)
  then have "takeWhile (\<lambda>x. x \<noteq> CHR ''_'') (showInt c @ CHR ''_'' # showInt t)
             = takeWhile (\<lambda>x. x \<noteq> CHR ''_'') (showInt c' @ CHR ''_'' # showInt t')"
    by (rule arg_cong)
  then have 1: "showInt c = showInt c'" by (simp only: tw)
  with e have "showInt t = showInt t'" by simp
  with 1 show "c = c' \<and> t = t'" by (simp add: showInt_inj)
qed simp

section \<open>Stages A and B: filtering and deduplication\<close>

lemma submissionKey_newSession:
  "submissionKey s = sessionKey (sim_contestId (newSession s)) (sim_startTimeSeconds (newSession s))"
  by (simp add: submissionKey_def newSession_def)

lemma scanSubmission_cases:
  "scanSubmission sessions s =
     (if isGym s \<and> isVirtual s \<and> submissionKey s \<notin> fst ` set sessions
      then sessions @ [(submissionKey s, newSession s)] else sessions)"
  by (simp add: scanSubmission_def has_def)

lemma keyed_scanSubmission: "keyed sessions \<Longrightarrow> keyed (scanSubmission sessions s)"
  by (auto simp: keyed_def scanSubmission_cases submissionKey_newSession)

lemma keyed_foldl: "keyed sessions \<Longrightarrow> keyed (foldl scanSubmission sessions subs)"
  by (induction subs arbitrary: sessions) (simp_all add: keyed_scanSubmission)

lemma keyed_Nil: "keyed []"
  by (simp add: keyed_def)

lemma keys_scanSubmission:
  "fst ` set (scanSubmission sessions s) =
     fst ` set sessions \<union> (if isGym s \<and> isVirtual s then {submissionKey s} else {})"
  by (auto simp: scanSubmission_cases)

lemma keys_foldl:
  "fst ` set (foldl scanSubmission sessions subs) =
     fst ` set sessions \<union> submissionKey ` {s \<in> set subs. isGym s \<and> isVirtual s}"
proof (induction subs arbitrary: sessions)
  case Nil
  show ?case by simp
next
  case (Cons s subs)
  show ?case
    unfolding foldl_Cons Cons.IH keys_scanSubmission by auto
qed

lemma map_of_scanSubmission:
  "map_of (scanSubmission sessions s) k =
     (case map_of sessions k of
        Some v \<Rightarrow> Some v
      | None \<Rightarrow> if isGym s \<and> isVirtual s \<and> submissionKey s = k then Some (newSession s) else None)"
  by (auto simp: scanSubmission_cases map_add_def map_of_eq_None_iff [symmetric] split: option.splits)

lemma map_of_foldl:
  "map_of (foldl scanSubmission sessions subs) k =
     (case map_of sessions k of
        Some v \<Rightarrow> Some v
      | None \<Rightarrow> map_option newSession
                  (List.find (\<lambda>s. isGym s \<and> isVirtual s \<and> submissionKey s = k) subs))"
proof (induction subs arbitrary: sessions)
  case Nil
  show ?case by (simp split: option.splits)
next
  case (Cons s subs)
  show ?case
    unfolding foldl_Cons Cons.IH map_of_scanSubmission
    by (simp split: option.splits)
qed

lemma scanPages_keyed:
  "keyed sessions \<Longrightarrow> scanPages api handle limit page frm sessions = Inr out \<Longrightarrow> keyed out"
proof (induction api handle limit page frm sessions rule: scanPages.induct)
  case (1 api handle limit page frm sessions)
  show ?case
  proof (cases "page < maxPages")
    case False
    with "1.prems" show ?thesis by (simp add: scanPages.simps [of _ _ _ page])
  next
    case True
    show ?thesis
    proof (cases "getUserSubmissions api handle pageSize frm")
      case (Inl e)
      with True "1.prems" show ?thesis by (simp add: scanPages.simps [of _ _ _ page])
    next
      case (Inr subs)
      have k: "keyed (foldl scanSubmission sessions subs)" using "1.prems"(1) by (rule keyed_foldl)
      show ?thesis
      proof (cases "subs = [] \<or> length subs < pageSize
                    \<or> int (length (foldl scanSubmission sessions subs)) \<ge> limit * 3")
        case stop: True
        with True Inr "1.prems" k show ?thesis
          by (auto simp: scanPages.simps [of _ _ _ page] split: if_splits)
      next
        case go: False
        with True Inr "1.prems"(2)
        have "scanPages api handle limit (page + 1) (frm + pageSize)
                (foldl scanSubmission sessions subs) = Inr out"
          by (simp add: scanPages.simps [of _ _ _ page])
        with "1.IH" [OF True Inr _ _ _ k] go show ?thesis by simp
      qed
    qed
  qed
qed

section \<open>Stages E and F: standings cache and shaping\<close>

lemma resolveOne_matched:
  "resolveOne api n sim cache =
     (case matched api n sim of None \<Rightarrow> cache | Some e \<Rightarrow> cache(simKey sim \<mapsto> e))"
  by (simp add: resolveOne_def matched_def simKey_def split: sum.splits option.splits)

lemma resolveStandings_other:
  "k \<notin> simKey ` set sims \<Longrightarrow> resolveStandings api n sims cache k = cache k"
  by (induction sims arbitrary: n cache) (auto simp: resolveOne_matched split: option.splits)

lemma resolveStandings_lookup:
  "distinct (map simKey sims) \<Longrightarrow> j < length sims \<Longrightarrow> cache (simKey (sims ! j)) = None \<Longrightarrow>
     resolveStandings api n sims cache (simKey (sims ! j)) = matched api (n + j) (sims ! j)"
proof (induction sims arbitrary: n cache j)
  case Nil
  then show ?case by simp
next
  case (Cons sim sims)
  show ?case
  proof (cases j)
    case 0
    from Cons.prems(1) have "simKey sim \<notin> simKey ` set sims" by simp
    then have "resolveStandings api (n + 1) sims (resolveOne api n sim cache) (simKey sim)
                 = resolveOne api n sim cache (simKey sim)"
      by (rule resolveStandings_other)
    with 0 Cons.prems(3) show ?thesis
      by (simp add: resolveOne_matched split: option.splits)
  next
    case (Suc i)
    with Cons.prems have i: "i < length sims" and d: "distinct (map simKey sims)"
      and c: "cache (simKey (sims ! i)) = None" and nin: "simKey sim \<notin> simKey ` set sims"
      by auto
    from i have "simKey (sims ! i) \<in> simKey ` set sims" by simp
    with nin have ne: "simKey (sims ! i) \<noteq> simKey sim" by metis
    from ne c have r: "resolveOne api n sim cache (simKey (sims ! i)) = None"
      by (simp add: resolveOne_matched split: option.splits)
    have "resolveStandings api (n + 1) sims (resolveOne api n sim cache) (simKey (sims ! i))
            = matched api (n + 1 + i) (sims ! i)"
      using d i r by (rule Cons.IH)
    with Suc show ?thesis by simp
  qed
qed

lemma mapThrowing_Inr:
  "mapThrowing f xs = Inr ys \<Longrightarrow> length ys = length xs \<and> (\<forall>j<length xs. f (xs ! j) = Inr (ys ! j))"
proof (induction xs arbitrary: ys)
  case Nil
  then show ?case by simp
next
  case (Cons x xs)
  from Cons.prems obtain y ys' where y: "f x = Inr y" and r: "mapThrowing f xs = Inr ys'"
    and ys: "ys = y # ys'"
    by (auto split: sum.splits)
  from Cons.IH [OF r] y ys show ?case by (auto simp: nth_Cons split: nat.splits)
qed

lemma keyed_distinct_simKey: "keyed sessions \<Longrightarrow> distinct (map simKey (map snd sessions))"
proof -
  assume k: "keyed sessions"
  then have "map fst sessions = map simKey (map snd sessions)"
    by (auto simp: keyed_def simKey_def)
  with k show ?thesis by (simp add: keyed_def)
qed

lemma distinct_slice0: "distinct (map f xs) \<Longrightarrow> distinct (map f (slice0 n xs))"
  by (simp add: slice0_def distinct_take take_map [symmetric])

lemma selectTop_distinct: "keyed sessions \<Longrightarrow> distinct (map simKey (selectTop limit sessions))"
proof -
  assume "keyed sessions"
  then have "distinct (map simKey (map snd sessions))" by (rule keyed_distinct_simKey)
  then have "distinct (map simKey (sort_key (\<lambda>s. - sim_startTimeSeconds s) (map snd sessions)))"
    by (metis distinct_map distinct_sort set_sort)
  then show ?thesis unfolding selectTop_def by (rule distinct_slice0)
qed

lemma shapeGym_fields:
  "shapeGym handle gymMap cache sim = Inr g \<Longrightarrow>
     g_rank g = map_option (\<lambda>e. showInt (st_rank e)) (cache (simKey sim)) \<and>
     g_solved g = map_option (\<lambda>e. showNat (st_solved e) @ ''/'' @ showNat (st_totalProblems e))
                    (cache (simKey sim)) \<and>
     g_members g = (if sim_members sim = [] then [handle] else sim_members sim) \<and>
     g_teamName g = sim_teamName sim \<and>
     simulatedAt (sim_startTimeSeconds sim) = Inr (g_simulatedAt g) \<and>
     g_link g = ''https://codeforces.com/gym/'' @ showInt (sim_contestId sim) @ ''/standings''"
  by (auto simp: shapeGym_def simKey_def Let_def split: sum.splits option.splits)

lemma candidate_iff:
  "(isGym s \<and> isVirtual s) \<longleftrightarrow>
     (\<exists>c. s_contestId s = Some c \<and> c > 100000) \<and> p_participantType (s_author s) = VIRTUAL"
  by (auto simp: isGym_def isVirtual_def split: option.splits)

lemma submissionKey_Some: "s_contestId s = Some c \<Longrightarrow> submissionKey s = sessionKey c (startTime s)"
  by (simp add: submissionKey_def)

lemma candidate_contestId: "isGym s \<Longrightarrow> \<exists>c. s_contestId s = Some c \<and> c > 100000"
  by (auto simp: isGym_def split: option.splits)

lemma candidate_key_eq:
  assumes "isGym r" "isGym s"
  shows "submissionKey r = submissionKey s \<longleftrightarrow>
           s_contestId r = s_contestId s \<and> startTime r = startTime s"
proof -
  from assms obtain a b where "s_contestId r = Some a" "s_contestId s = Some b"
    using candidate_contestId by blast
  then show ?thesis by (simp add: submissionKey_def sessionKey_inj)
qed

lemma filter_key_single:
  "distinct (map fst xs) \<Longrightarrow> map_of xs k = Some v \<Longrightarrow> filter (\<lambda>p. fst p = k) xs = [(k, v)]"
proof (induction xs)
  case Nil
  then show ?case by simp
next
  case (Cons x xs)
  show ?case
  proof (cases "fst x = k")
    case True
    with Cons.prems have "k \<notin> fst ` set xs" and "x = (k, v)" by (auto simp: prod_eq_iff)
    moreover from \<open>k \<notin> fst ` set xs\<close> have "filter (\<lambda>p. fst p = k) xs = []"
      by (auto simp: filter_empty_conv)
    ultimately show ?thesis by simp
  next
    case False
    with Cons show ?thesis by (cases x) auto
  qed
qed

lemma scan_first_seen:
  assumes "s \<in> set subs" "isGym s" "isVirtual s"
  shows "\<exists>f. List.find (\<lambda>r. isGym r \<and> isVirtual r \<and> s_contestId r = s_contestId s
                              \<and> startTime r = startTime s) subs = Some f
              \<and> map_of (foldl scanSubmission [] subs) (submissionKey s) = Some (newSession f)"
proof -
  let ?P = "\<lambda>r. isGym r \<and> isVirtual r \<and> submissionKey r = submissionKey s"
  let ?Q = "\<lambda>r. isGym r \<and> isVirtual r \<and> s_contestId r = s_contestId s \<and> startTime r = startTime s"
  have pq: "List.find ?P subs = List.find ?Q subs"
    by (rule find_cong) (auto simp: candidate_key_eq assms(2))
  from assms have "List.find ?P subs \<noteq> None" by (auto simp: find_None_iff)
  then obtain f where f: "List.find ?P subs = Some f" by blast
  have "map_of (foldl scanSubmission [] subs) (submissionKey s) = Some (newSession f)"
    by (simp add: map_of_foldl f)
  with f pq show ?thesis by simp
qed

lemma scan_sessions_of_key:
  assumes k: "keyed out"
  shows "filter (\<lambda>v. sim_contestId v = c \<and> sim_startTimeSeconds v = t) (map snd out)
           = map snd (filter (\<lambda>p. fst p = sessionKey c t) out)"
proof -
  have "\<And>p. p \<in> set out \<Longrightarrow>
          (sim_contestId (snd p) = c \<and> sim_startTimeSeconds (snd p) = t) = (fst p = sessionKey c t)"
    using k by (auto simp: keyed_def sessionKey_inj)
  then have "filter (\<lambda>p. sim_contestId (snd p) = c \<and> sim_startTimeSeconds (snd p) = t) out
               = filter (\<lambda>p. fst p = sessionKey c t) out"
    by (intro filter_cong) auto
  then show ?thesis by (simp add: filter_map o_def)
qed

lemma scanPages_foldl:
  "scanPages api handle limit page frm sessions = Inr out \<Longrightarrow>
     \<exists>subs. out = foldl scanSubmission sessions subs"
proof (induction api handle limit page frm sessions rule: scanPages.induct)
  case (1 api handle limit page frm sessions)
  have nil: "sessions = foldl scanSubmission sessions []" by simp
  show ?case
  proof (cases "page < maxPages")
    case False
    with "1.prems" have "out = sessions" by (simp add: scanPages.simps [of _ _ _ page])
    with nil show ?thesis by blast
  next
    case True
    show ?thesis
    proof (cases "getUserSubmissions api handle pageSize frm")
      case (Inl e)
      with True "1.prems" show ?thesis by (simp add: scanPages.simps [of _ _ _ page])
    next
      case (Inr subs)
      show ?thesis
      proof (cases "subs = [] \<or> length subs < pageSize
                    \<or> int (length (foldl scanSubmission sessions subs)) \<ge> limit * 3")
        case stop: True
        with True Inr "1.prems" have "out = sessions \<or> out = foldl scanSubmission sessions subs"
          by (auto simp: scanPages.simps [of _ _ _ page] split: if_splits)
        with nil show ?thesis by blast
      next
        case go: False
        with True Inr "1.prems"
        have "scanPages api handle limit (page + 1) (frm + pageSize)
                (foldl scanSubmission sessions subs) = Inr out"
          by (simp add: scanPages.simps [of _ _ _ page])
        with "1.IH" [OF True Inr] go
        obtain rest where "out = foldl scanSubmission (foldl scanSubmission sessions subs) rest"
          by auto
        then have "out = foldl scanSubmission sessions (subs @ rest)" by simp
        then show ?thesis by blast
      qed
    qed
  qed
qed

lemma sorted_members_newSession: "sorted (sim_members (newSession s))"
  by (simp add: newSession_def)

lemma scan_values:
  "v \<in> snd ` set (foldl scanSubmission sessions subs) \<Longrightarrow>
     v \<in> snd ` set sessions \<or> (\<exists>s \<in> set subs. isGym s \<and> isVirtual s \<and> v = newSession s)"
proof (induction subs arbitrary: sessions)
  case Nil
  then show ?case by simp
next
  case (Cons s subs)
  from Cons.IH [of "scanSubmission sessions s"] Cons.prems
  show ?case by (auto simp: scanSubmission_cases split: if_splits)
qed

lemma scan_unchanged:
  "(\<And>r. r \<in> set rest \<Longrightarrow> has sessions (submissionKey r)) \<Longrightarrow>
     foldl scanSubmission sessions rest = sessions"
  by (induction rest) (simp_all add: scanSubmission_def)

lemma scan_unchanged_cand:
  "(\<And>r. r \<in> set rest \<Longrightarrow> isGym r \<Longrightarrow> isVirtual r \<Longrightarrow> has sessions (submissionKey r)) \<Longrightarrow>
     foldl scanSubmission sessions rest = sessions"
  by (induction rest) (simp_all add: scanSubmission_def)

lemma selectTop_Nil: "selectTop limit [] = []"
  by (simp add: selectTop_def slice0_def)

lemma getGymSimulations_Inr:
  assumes "getGymSimulations api handle limit = Inr res"
  shows "\<exists>sessions. scanPages api handle limit 0 1 [] = Inr sessions
           \<and> res_handle res = handle
           \<and> (\<exists>gymMap. mapThrowing
                  (shapeGym handle gymMap
                     (resolveStandings api 0 (selectTop limit sessions) Map.empty))
                  (selectTop limit sessions) = Inr (res_gyms res))"
proof (cases "scanPages api handle limit 0 1 []")
  case (Inl e)
  with assms show ?thesis by (simp add: getGymSimulations_def)
next
  case (Inr sessions)
  show ?thesis
  proof (cases "sessions = []")
    case True
    with Inr assms have "res = \<lparr> res_handle = handle, res_gyms = [] \<rparr>"
      by (simp add: getGymSimulations_def)
    with Inr True show ?thesis by (simp add: selectTop_Nil)
  next
    case False
    with Inr assms show ?thesis
      by (auto simp: getGymSimulations_def split: sum.splits)
  qed
qed

lemma scanPages_sessions_keyed: "scanPages api handle limit 0 1 [] = Inr sessions \<Longrightarrow> keyed sessions"
  using keyed_Nil by (rule scanPages_keyed)

lemma gym_fields:
  assumes res: "getGymSimulations api handle limit = Inr res"
    and scan: "scanPages api handle limit 0 1 [] = Inr sessions"
    and j: "j < length (selectTop limit sessions)"
  shows "length (res_gyms res) = length (selectTop limit sessions)"
    and "g_rank (res_gyms res ! j) =
           map_option (\<lambda>e. showInt (st_rank e)) (matched api j (selectTop limit sessions ! j))"
    and "g_solved (res_gyms res ! j) =
           map_option (\<lambda>e. showNat (st_solved e) @ ''/'' @ showNat (st_totalProblems e))
             (matched api j (selectTop limit sessions ! j))"
    and "g_members (res_gyms res ! j) =
           (if sim_members (selectTop limit sessions ! j) = [] then [handle]
            else sim_members (selectTop limit sessions ! j))"
    and "g_teamName (res_gyms res ! j) = sim_teamName (selectTop limit sessions ! j)"
    and "simulatedAt (sim_startTimeSeconds (selectTop limit sessions ! j))
           = Inr (g_simulatedAt (res_gyms res ! j))"
    and "g_link (res_gyms res ! j) =
           ''https://codeforces.com/gym/'' @ showInt (sim_contestId (selectTop limit sessions ! j))
             @ ''/standings''"
proof -
  let ?top = "selectTop limit sessions"
  let ?cache = "resolveStandings api 0 ?top Map.empty"
  from getGymSimulations_Inr [OF res] scan obtain gymMap where
    m: "mapThrowing (shapeGym handle gymMap ?cache) ?top = Inr (res_gyms res)"
    by auto
  from mapThrowing_Inr [OF m] j
  have len: "length (res_gyms res) = length ?top"
    and sh: "shapeGym handle gymMap ?cache (?top ! j) = Inr (res_gyms res ! j)"
    by simp_all
  have d: "distinct (map simKey ?top)"
    using scanPages_sessions_keyed [OF scan] by (rule selectTop_distinct)
  have c: "?cache (simKey (?top ! j)) = matched api j (?top ! j)"
    using resolveStandings_lookup [OF d j, of Map.empty api 0] by simp
  note f = shapeGym_fields [OF sh, unfolded c]
  show "length (res_gyms res) = length ?top" by (rule len)
  show "g_rank (res_gyms res ! j) =
           map_option (\<lambda>e. showInt (st_rank e)) (matched api j (?top ! j))"
    using f by simp
  show "g_solved (res_gyms res ! j) =
           map_option (\<lambda>e. showNat (st_solved e) @ ''/'' @ showNat (st_totalProblems e))
             (matched api j (?top ! j))"
    using f by simp
  show "g_members (res_gyms res ! j) =
           (if sim_members (?top ! j) = [] then [handle] else sim_members (?top ! j))"
    using f by simp
  show "g_teamName (res_gyms res ! j) = sim_teamName (?top ! j)"
    using f by simp
  show "simulatedAt (sim_startTimeSeconds (?top ! j)) = Inr (g_simulatedAt (res_gyms res ! j))"
    using f by simp
  show "g_link (res_gyms res ! j) =
           ''https://codeforces.com/gym/'' @ showInt (sim_contestId (?top ! j)) @ ''/standings''"
    using f by simp
qed

lemma sorted_desc_sort_key:
  "sorted_wrt (\<lambda>a b. f a \<ge> f b) (sort_key (\<lambda>x. - f x) xs)" for f :: "'a \<Rightarrow> int"
proof -
  have "sorted (map (\<lambda>x. - f x) (sort_key (\<lambda>x. - f x) xs))" by (rule sorted_sort_key)
  then show ?thesis by (simp add: sorted_map sorted_wrt_iff_nth_less)
qed

lemma sorted_wrt_slice0: "sorted_wrt P xs \<Longrightarrow> sorted_wrt P (slice0 n xs)"
  by (simp add: slice0_def sorted_wrt_take)

lemma selectTop_sorted:
  "sorted_wrt (\<lambda>a b. sim_startTimeSeconds a \<ge> sim_startTimeSeconds b) (selectTop limit sessions)"
  unfolding selectTop_def by (intro sorted_wrt_slice0 sorted_desc_sort_key)

lemma selectTop_length:
  "0 \<le> limit \<Longrightarrow> length (selectTop limit sessions) = min (nat limit) (length sessions)"
  by (simp add: selectTop_def slice0_def)

lemma shapeGym_cache:
  "shapeGym handle gymMap cache sim =
     map_sum id
       (\<lambda>g. g\<lparr> g_rank := map_option (\<lambda>e. showInt (st_rank e)) (cache (simKey sim)),
                g_solved := map_option (\<lambda>e. showNat (st_solved e) @ ''/'' @ showNat (st_totalProblems e))
                              (cache (simKey sim)) \<rparr>)
       (shapeGym handle gymMap Map.empty sim)"
  by (simp add: shapeGym_def simKey_def Let_def split: sum.splits option.splits)

lemma shapeGym_same_entry:
  "cache (simKey sim) = cache' (simKey sim) \<Longrightarrow>
     shapeGym handle gymMap cache sim = shapeGym handle gymMap cache' sim"
  by (simp add: shapeGym_cache [of _ _ cache] shapeGym_cache [of _ _ cache'])

lemma shapeGym_no_entry:
  "shapeGym handle gymMap cache sim = Inr g \<Longrightarrow> cache' (simKey sim) = None \<Longrightarrow>
     shapeGym handle gymMap cache' sim = Inr (g\<lparr> g_rank := None, g_solved := None \<rparr>)"
  by (auto simp: shapeGym_cache [of _ _ cache] shapeGym_cache [of _ _ cache'] map_sum_def
           split: sum.splits)

lemma shapeGym_isl:
  "isl (shapeGym handle gymMap cache sim) = isl (shapeGym handle gymMap cache' sim)"
  by (simp add: shapeGym_cache [of _ _ cache] shapeGym_cache [of _ _ cache'] map_sum_def
           split: sum.splits)

lemma mapThrowing_isl:
  "(\<And>x. x \<in> set xs \<Longrightarrow> isl (f x) = isl (g x)) \<Longrightarrow>
     isl (mapThrowing f xs) = isl (mapThrowing g xs)"
proof (induction xs)
  case Nil
  show ?case by simp
next
  case (Cons x xs)
  from Cons.prems have "isl (f x) = isl (g x)" by simp
  moreover from Cons have "isl (mapThrowing f xs) = isl (mapThrowing g xs)" by simp
  ultimately show ?case
    by (cases "f x"; cases "g x"; cases "mapThrowing f xs"; cases "mapThrowing g xs") simp_all
qed

lemma mapThrowing_eqI:
  "length ys = length xs \<Longrightarrow> (\<And>j. j < length xs \<Longrightarrow> f (xs ! j) = Inr (ys ! j)) \<Longrightarrow>
     mapThrowing f xs = Inr ys"
proof (induction xs arbitrary: ys)
  case Nil
  then show ?case by simp
next
  case (Cons x xs)
  from Cons.prems(1) obtain y ys' where ys: "ys = y # ys'" by (cases ys) auto
  from Cons.prems(2) [of 0] ys have y: "f x = Inr y" by simp
  have "mapThrowing f xs = Inr ys'"
  proof (rule Cons.IH)
    show "length ys' = length xs" using Cons.prems(1) ys by simp
    fix j assume "j < length xs"
    with Cons.prems(2) [of "Suc j"] ys show "f (xs ! j) = Inr (ys' ! j)" by simp
  qed
  with y ys show ?case by simp
qed

lemma scanPages_api_cong:
  "getUserSubmissions api' = getUserSubmissions api \<Longrightarrow>
     scanPages api' handle limit page frm sessions = scanPages api handle limit page frm sessions"
proof (induction api handle limit page frm sessions rule: scanPages.induct)
  case (1 api handle limit page frm sessions)
  show ?case
  proof (cases "page < maxPages")
    case False
    then show ?thesis by (simp add: scanPages.simps [of _ _ _ page])
  next
    case True
    show ?thesis
    proof (cases "getUserSubmissions api handle pageSize frm")
      case (Inl e)
      with True "1.prems" show ?thesis by (simp add: scanPages.simps [of _ _ _ page])
    next
      case (Inr subs)
      show ?thesis
      proof (cases "subs = [] \<or> length subs < pageSize
                    \<or> int (length (foldl scanSubmission sessions subs)) \<ge> limit * 3")
        case stop: True
        with True Inr "1.prems" show ?thesis
          by (auto simp: scanPages.simps [of _ _ _ page])
      next
        case go: False
        with "1.IH" [OF True Inr _ _ _ "1.prems"]
        have "scanPages api' handle limit (page + 1) (frm + pageSize)
                (foldl scanSubmission sessions subs)
              = scanPages api handle limit (page + 1) (frm + pageSize)
                (foldl scanSubmission sessions subs)"
          by simp
        with True Inr go "1.prems" show ?thesis
          by (simp add: scanPages.simps [of _ _ _ page])
      qed
    qed
  qed
qed

lemma standings_never_abort:
  "isl (getGymSimulations (api\<lparr> getContestStandings := f \<rparr>) handle limit)
     = isl (getGymSimulations api handle limit)"
proof -
  let ?api = "api\<lparr> getContestStandings := f \<rparr>"
  have "scanPages ?api handle limit 0 1 [] = scanPages api handle limit 0 1 []"
    by (rule scanPages_api_cong) simp
  then have s: "scanPages ?api handle limit 0 (Suc 0) [] = scanPages api handle limit 0 (Suc 0) []"
    by simp
  have m: "isl (mapThrowing (shapeGym handle gm c) xs) = isl (mapThrowing (shapeGym handle gm c') xs)"
    for gm c c' xs
    by (rule mapThrowing_isl) (rule shapeGym_isl)
  show ?thesis
  proof (cases "scanPages api handle limit 0 1 []")
    case (Inl e)
    then show ?thesis by (simp add: getGymSimulations_def s)
  next
    case (Inr sessions)
    show ?thesis
    proof (cases "sessions = []")
      case True
      with Inr show ?thesis by (simp add: getGymSimulations_def s)
    next
      case False
      show ?thesis
      proof (cases "getContestList api True")
        case (Inl e)
        with Inr False show ?thesis by (simp add: getGymSimulations_def s)
      next
        case gl: (Inr gymList)
        let ?top = "selectTop limit sessions"
        let ?gm = "buildGymMap ?top gymList"
        let ?A = "mapThrowing (shapeGym handle ?gm (resolveStandings ?api 0 ?top Map.empty)) ?top"
        let ?B = "mapThrowing (shapeGym handle ?gm (resolveStandings api 0 ?top Map.empty)) ?top"
        have ab: "isl ?A = isl ?B" by (rule m)
        have a: "getGymSimulations ?api handle limit =
                   (case ?A of Inl e \<Rightarrow> Inl e
                    | Inr gyms \<Rightarrow> Inr \<lparr> res_handle = handle, res_gyms = gyms \<rparr>)"
          using Inr False gl by (simp add: getGymSimulations_def s)
        have b: "getGymSimulations api handle limit =
                   (case ?B of Inl e \<Rightarrow> Inl e
                    | Inr gyms \<Rightarrow> Inr \<lparr> res_handle = handle, res_gyms = gyms \<rparr>)"
          using Inr False gl by (simp add: getGymSimulations_def)
        from ab show ?thesis unfolding a b by (cases ?A; cases ?B) simp_all
      qed
    qed
  qed
qed

lemma run_fixture: "getGymSimulations fixtureApi ''automac'' 10
             = Inr \<lparr> res_handle = ''automac'', res_gyms = [gym105789] \<rparr>"
  by code_simp

lemma run_twoSims: "getGymSimulations twoSimsApi ''automac'' 10
             = Inr \<lparr> res_handle = ''automac'', res_gyms = [gym105789, gym106193] \<rparr>"
  by code_simp

lemma run_twoSims_limit1: "getGymSimulations twoSimsApi ''automac'' 1
             = Inr \<lparr> res_handle = ''automac'', res_gyms = [gym105789] \<rparr>"
  by code_simp

lemma run_twoSims_negative: "getGymSimulations twoSimsApi ''automac'' (- 1)
             = Inr \<lparr> res_handle = ''automac'', res_gyms = [gym105789] \<rparr>"
  by code_simp

lemma run_tie: "getGymSimulations tieApi ''automac'' 10
             = Inr \<lparr> res_handle = ''automac'',
                     res_gyms = [gym105789, gym106193\<lparr> g_simulatedAt := ''2026-02-22 22:06 UTC'' \<rparr>] \<rparr>"
  by code_simp

lemma scan_fixtures: "scanPages twoSimsApi ''automac'' 10 0 1 [] = Inr twoSessions"
  "scanPages twoSimsApi ''automac'' 1 0 1 [] = Inr twoSessions"
  "scanPages twoSimsApi ''automac'' (- 1) 0 1 [] = Inr twoSessions"
  "scanPages tieApi ''automac'' 10 0 1 [] = Inr tieSessions"
  "scanPages fixtureApi ''automac'' 10 0 1 [] = Inr [(''105789_1771797960'', session105789)]"
  by code_simp+

lemma run_solo: "getGymSimulations soloApi ''solo_user'' 10
             = Inr \<lparr> res_handle = ''solo_user'',
                     res_gyms = [gym105789\<lparr> g_members := [''solo_user''], g_rank := None, g_solved := None \<rparr>] \<rparr>"
  by code_simp

lemma teamRow_first_both:
  "i < length rows \<Longrightarrow> byStartAndMember sim (rows ! i) \<Longrightarrow>
   (\<And>k. k < i \<Longrightarrow> \<not> byStartAndMember sim (rows ! k)) \<Longrightarrow> teamRow sim rows = Some (rows ! i)"
proof -
  assume "i < length rows" "byStartAndMember sim (rows ! i)"
    "\<And>k. k < i \<Longrightarrow> \<not> byStartAndMember sim (rows ! k)"
  then have "List.find (byStartAndMember sim) rows = Some (rows ! i)"
    unfolding find_Some_iff by blast
  then show ?thesis by (simp add: teamRow_def)
qed

lemma teamRow_fallback:
  "(\<And>r. r \<in> set rows \<Longrightarrow> \<not> byStartAndMember sim r) \<Longrightarrow> teamRow sim rows = List.find (byMember sim) rows"
proof -
  assume "\<And>r. r \<in> set rows \<Longrightarrow> \<not> byStartAndMember sim r"
  then have "List.find (byStartAndMember sim) rows = None" by (simp add: find_None_iff)
  then show ?thesis by (simp add: teamRow_def)
qed

lemma byMember_iff:
  "byMember sim r \<longleftrightarrow> (\<exists>m \<in> set (p_members (r_party r)). m_handle m \<in> set (sim_members sim))"
  by (simp add: byMember_def list_ex_iff)

lemma matched_Inr:
  "getContestStandings api n (sim_contestId sim) = Inr data \<Longrightarrow>
     matched api n sim = map_option (standingsEntry data) (teamRow sim (d_rows data))"
  by (simp add: matched_def)

lemma matched_fun_upd_other:
  "j \<noteq> i \<Longrightarrow>
     matched (api\<lparr> getContestStandings := (getContestStandings api)(i := g) \<rparr>) j sim
       = matched api j sim"
  by (simp add: matched_def)

lemma matched_fun_upd_throw:
  "matched (api\<lparr> getContestStandings := (getContestStandings api)(i := \<lambda>c. Inl e) \<rparr>) i sim = None"
  by (simp add: matched_def)

subsection \<open>Ties in the selection and the order of the scan\<close>

lemma filter_take_prefix:
  "filter P (take n xs) = take (length (filter P (take n xs))) (filter P xs)"
proof -
  have "filter P xs = filter P (take n xs) @ filter P (drop n xs)"
    by (metis append_take_drop_id filter_append)
  then show ?thesis by simp
qed

lemma filter_slice0_prefix:
  "filter P (slice0 n xs) = take (length (filter P (slice0 n xs))) (filter P xs)"
  unfolding slice0_def by (simp add: filter_take_prefix [symmetric])

lemma selectTop_stable:
  "filter (\<lambda>s. sim_startTimeSeconds s = t) (selectTop limit sessions)
     = take (length (filter (\<lambda>s. sim_startTimeSeconds s = t) (selectTop limit sessions)))
         (filter (\<lambda>s. sim_startTimeSeconds s = t) (map snd sessions))"
proof -
  let ?P = "\<lambda>s. sim_startTimeSeconds s = t"
  let ?sorted = "sort_key (\<lambda>s. - sim_startTimeSeconds s) (map snd sessions)"
  have "filter (\<lambda>s. - sim_startTimeSeconds s = - t) ?sorted
          = filter (\<lambda>s. - sim_startTimeSeconds s = - t) (map snd sessions)"
    by (rule sort_key_stable)
  then have st: "filter ?P ?sorted = filter ?P (map snd sessions)" by simp
  have "filter ?P (selectTop limit sessions)
          = take (length (filter ?P (selectTop limit sessions))) (filter ?P ?sorted)"
    unfolding selectTop_def by (rule filter_slice0_prefix)
  with st show ?thesis by simp
qed

lemma selectTop_tie_contests:
  assumes k: "keyed sessions" and ij: "i < j" "j < length (selectTop limit sessions)"
    and eq: "sim_startTimeSeconds (selectTop limit sessions ! i)
               = sim_startTimeSeconds (selectTop limit sessions ! j)"
  shows "sim_contestId (selectTop limit sessions ! i) \<noteq> sim_contestId (selectTop limit sessions ! j)"
proof
  assume c: "sim_contestId (selectTop limit sessions ! i) = sim_contestId (selectTop limit sessions ! j)"
  let ?top = "selectTop limit sessions"
  from c eq have "simKey (?top ! i) = simKey (?top ! j)" by (simp add: simKey_def)
  with ij have e: "map simKey ?top ! i = map simKey ?top ! j" by simp
  from selectTop_distinct [OF k] have d: "distinct (map simKey ?top)" .
  from ij have li: "i < length (map simKey ?top)" and lj: "j < length (map simKey ?top)" by simp_all
  from nth_eq_iff_index_eq [OF d li lj] e have "i = j" by blast
  with ij show False by simp
qed

lemma scan_order_snoc:
  "map fst (foldl scanSubmission [] (subs @ [s])) =
     (if isGym s \<and> isVirtual s \<and> submissionKey s \<notin> fst ` set (foldl scanSubmission [] subs)
      then map fst (foldl scanSubmission [] subs) @ [submissionKey s]
      else map fst (foldl scanSubmission [] subs))"
  by (simp add: scanSubmission_cases)

lemma scan_order:
  "map fst (foldl scanSubmission [] subs)
     = rev (remdups (rev (map submissionKey (filter (\<lambda>s. isGym s \<and> isVirtual s) subs))))"
proof (induction subs rule: rev_induct)
  case Nil
  show ?case by simp
next
  case (snoc s subs)
  have ks: "fst ` set (foldl scanSubmission [] subs)
              = submissionKey ` {s \<in> set subs. isGym s \<and> isVirtual s}"
    by (simp add: keys_foldl)
  show ?case
    unfolding scan_order_snoc snoc.IH ks by auto
qed

lemma scanPages_pages:
  "scanPages api handle limit page frm sessions = Inr out \<Longrightarrow>
     \<exists>pages. out = foldl scanSubmission sessions (concat pages)
       \<and> (\<forall>p < length pages.
             getUserSubmissions api handle pageSize (frm + p * pageSize) = Inr (pages ! p))"
proof (induction api handle limit page frm sessions rule: scanPages.induct)
  case (1 api handle limit page frm sessions)
  let ?ok = "\<lambda>pages f. \<forall>p < length pages.
             getUserSubmissions api handle pageSize (f + p * pageSize) = Inr (pages ! p)"
  have nil: "sessions = foldl scanSubmission sessions (concat []) \<and> ?ok [] frm" by simp
  show ?case
  proof (cases "page < maxPages")
    case False
    with "1.prems" have "out = sessions" by (simp add: scanPages.simps [of _ _ _ page])
    with nil show ?thesis by blast
  next
    case True
    show ?thesis
    proof (cases "getUserSubmissions api handle pageSize frm")
      case (Inl e)
      with True "1.prems" show ?thesis by (simp add: scanPages.simps [of _ _ _ page])
    next
      case (Inr subs)
      have one: "?ok [subs] frm" using Inr by simp
      show ?thesis
      proof (cases "subs = [] \<or> length subs < pageSize
                    \<or> int (length (foldl scanSubmission sessions subs)) \<ge> limit * 3")
        case stop: True
        with True Inr "1.prems" have "out = sessions \<or> out = foldl scanSubmission sessions subs"
          by (auto simp: scanPages.simps [of _ _ _ page] split: if_splits)
        then show ?thesis
        proof
          assume "out = sessions"
          with nil show ?thesis by blast
        next
          assume "out = foldl scanSubmission sessions subs"
          then have "out = foldl scanSubmission sessions (concat [subs])" by simp
          with one show ?thesis by blast
        qed
      next
        case go: False
        with True Inr "1.prems"
        have "scanPages api handle limit (page + 1) (frm + pageSize)
                (foldl scanSubmission sessions subs) = Inr out"
          by (simp add: scanPages.simps [of _ _ _ page])
        with "1.IH" [OF True Inr] go
        obtain rest where r: "out = foldl scanSubmission (foldl scanSubmission sessions subs) (concat rest)"
          and ok: "?ok rest (frm + pageSize)"
          by auto
        from r have "out = foldl scanSubmission sessions (concat (subs # rest))" by simp
        moreover have "?ok (subs # rest) frm"
        proof (intro allI impI)
          fix p assume p: "p < length (subs # rest)"
          show "getUserSubmissions api handle pageSize (frm + p * pageSize) = Inr ((subs # rest) ! p)"
          proof (cases p)
            case 0
            with Inr show ?thesis by simp
          next
            case (Suc q)
            with p have "q < length rest" by simp
            with ok have "getUserSubmissions api handle pageSize (frm + pageSize + q * pageSize) = Inr (rest ! q)"
              by blast
            with Suc show ?thesis by (simp add: add.assoc)
          qed
        qed
        ultimately show ?thesis by blast
      qed
    qed
  qed
qed

section \<open>History trimmer\<close>

lemma pairsFrom_unfold:
  "i + 1 < length msgs \<Longrightarrow>
     pairsFrom msgs i =
       (if msg_role (msgs ! i) = User \<and> msg_role (msgs ! (i + 1)) = Assistant
        then [(i, i + 1)] else []) @ pairsFrom msgs (i + 2)"
  "\<not> i + 1 < length msgs \<Longrightarrow> pairsFrom msgs i = []"
  by (simp_all add: pairsFrom.simps [of msgs i])

lemma pairsFrom_lower: "(a, b) \<in> set (pairsFrom msgs i) \<Longrightarrow> i \<le> a"
proof (induction msgs i rule: pairsFrom.induct)
  case (1 msgs i)
  show ?case
  proof (cases "i + 1 < length msgs")
    case False
    with "1.prems" show ?thesis by (simp add: pairsFrom_unfold)
  next
    case True
    from "1.prems" True
    have "a = i \<or> (a, b) \<in> set (pairsFrom msgs (i + 2))"
      by (auto simp: pairsFrom_unfold split: if_splits)
    then show ?thesis
    proof
      assume "a = i" then show ?thesis by simp
    next
      assume "(a, b) \<in> set (pairsFrom msgs (i + 2))"
      from "1.IH" [OF True this] show ?thesis by simp
    qed
  qed
qed

lemma pairsFrom_props:
  "(a, b) \<in> set (pairsFrom msgs i) \<Longrightarrow> even i \<Longrightarrow>
     even a \<and> b = a + 1 \<and> b < length msgs
     \<and> msg_role (msgs ! a) = User \<and> msg_role (msgs ! b) = Assistant"
proof (induction msgs i rule: pairsFrom.induct)
  case (1 msgs i)
  show ?case
  proof (cases "i + 1 < length msgs")
    case False
    with "1.prems" show ?thesis by (simp add: pairsFrom_unfold)
  next
    case True
    from "1.prems"(1) True
    have "(a, b) = (i, i + 1) \<and> msg_role (msgs ! i) = User \<and> msg_role (msgs ! (i + 1)) = Assistant
          \<or> (a, b) \<in> set (pairsFrom msgs (i + 2))"
      by (auto simp: pairsFrom_unfold split: if_splits)
    then show ?thesis
    proof
      assume "(a, b) = (i, i + 1) \<and> msg_role (msgs ! i) = User
              \<and> msg_role (msgs ! (i + 1)) = Assistant"
      with True "1.prems"(2) show ?thesis by simp
    next
      assume "(a, b) \<in> set (pairsFrom msgs (i + 2))"
      from "1.IH" [OF True this] "1.prems"(2) show ?thesis by auto
    qed
  qed
qed

lemma pairsFrom_sorted: "sorted_wrt (<) (map fst (pairsFrom msgs i))"
proof (induction msgs i rule: pairsFrom.induct)
  case (1 msgs i)
  show ?case
  proof (cases "i + 1 < length msgs")
    case False
    then show ?thesis by (simp add: pairsFrom_unfold)
  next
    case True
    have lb: "i < a" if "a \<in> fst ` set (pairsFrom msgs (i + 2))" for a
    proof -
      from that obtain b where "(a, b) \<in> set (pairsFrom msgs (i + 2))" by auto
      from pairsFrom_lower [OF this] show ?thesis by simp
    qed
    from "1.IH" [OF True] lb show ?thesis
      by (auto simp: pairsFrom_unfold(1) [OF True])
  qed
qed

lemma length_refsOf: "length (refsOf ps) = 2 * length ps"
  by (induction ps) (auto simp: refsOf_def)

lemma refsOf_Nil_iff: "refsOf ps = [] \<longleftrightarrow> ps = []"
  by (cases ps) (auto simp: refsOf_def)

lemma refsOf_Cons: "refsOf (p # ps) = [Some (fst p), Some (snd p)] @ refsOf ps"
  by (simp add: refsOf_def split: prod.splits)

lemma last_refsOf: "ps \<noteq> [] \<Longrightarrow> last (refsOf ps) = Some (snd (last ps))"
proof (induction ps)
  case Nil
  then show ?case by simp
next
  case (Cons p ps)
  show ?case
  proof (cases "ps = []")
    case True
    then show ?thesis by (simp add: refsOf_Cons refsOf_Nil_iff [THEN iffD2])
  next
    case False
    then have "refsOf ps \<noteq> []" by (simp add: refsOf_Nil_iff)
    with False Cons.IH show ?thesis by (simp add: refsOf_Cons)
  qed
qed

lemma length_sliceLast: "length (sliceLast n xs) \<le> n"
  by (simp add: sliceLast_def)

lemma trimHistoryRefs_eq:
  "trimHistoryRefs msgs =
     refsOf (sliceLast MAX_HISTORY_TURNS (pairsFrom msgs 0))
     @ (if sliceLast MAX_HISTORY_TURNS (pairsFrom msgs 0) \<noteq> [] \<and> msgs \<noteq> []
           \<and> snd (last (sliceLast MAX_HISTORY_TURNS (pairsFrom msgs 0))) = length msgs - 1
        then [] else [if msgs = [] then None else Some (length msgs - 1)])"
proof (cases "sliceLast MAX_HISTORY_TURNS (pairsFrom msgs 0) = []")
  case True
  then show ?thesis by (simp add: trimHistoryRefs_def Let_def refsOf_def)
next
  case False
  then show ?thesis
    using last_refsOf [OF False] refsOf_Nil_iff [of "sliceLast MAX_HISTORY_TURNS (pairsFrom msgs 0)"]
    by (auto simp: trimHistoryRefs_def Let_def refsOf_def [symmetric])
qed

lemma map_refsOf:
  "map (map_option f) (refsOf ps) = concat (map (\<lambda>(a, b). [Some (f a), Some (f b)]) ps)"
  by (induction ps) (auto simp: refsOf_def)

lemma trimHistory_shape:
  assumes "msgs \<noteq> []"
  shows "length (trimHistory msgs) \<le> 9
     \<and> last (trimHistory msgs) = Some (last msgs)
     \<and> None \<notin> set (trimHistory msgs)
     \<and> length (sliceLast MAX_HISTORY_TURNS (pairsFrom msgs 0)) \<le> 4
     \<and> trimHistory msgs =
          concat (map (\<lambda>(a, b). [Some (msgs ! a), Some (msgs ! b)])
                    (sliceLast MAX_HISTORY_TURNS (pairsFrom msgs 0)))
          @ (if sliceLast MAX_HISTORY_TURNS (pairsFrom msgs 0) \<noteq> []
                \<and> snd (last (sliceLast MAX_HISTORY_TURNS (pairsFrom msgs 0))) = length msgs - 1
             then [] else [Some (last msgs)])
     \<and> (\<forall>(a, b) \<in> set (pairsFrom msgs 0).
           even a \<and> b = a + 1 \<and> b < length msgs
           \<and> msg_role (msgs ! a) = User \<and> msg_role (msgs ! b) = Assistant)
     \<and> sorted_wrt (<) (map fst (pairsFrom msgs 0))"
proof -
  let ?recent = "sliceLast MAX_HISTORY_TURNS (pairsFrom msgs 0)"
  let ?pairs = "concat (map (\<lambda>(a, b). [Some (msgs ! a), Some (msgs ! b)]) ?recent)"
  have l4: "length ?recent \<le> 4"
    using length_sliceLast [of MAX_HISTORY_TURNS] by (simp add: MAX_HISTORY_TURNS_def)
  have lm: "msgs ! (length msgs - Suc 0) = last msgs" using assms by (simp add: last_conv_nth)
  have eq: "trimHistory msgs =
          ?pairs @ (if ?recent \<noteq> [] \<and> snd (last ?recent) = length msgs - 1
                    then [] else [Some (last msgs)])"
    using assms by (simp add: trimHistory_def trimHistoryRefs_eq map_refsOf lm)
  have "length ?pairs = length (map (map_option (\<lambda>i. msgs ! i)) (refsOf ?recent))"
    by (simp only: map_refsOf)
  then have lp: "length ?pairs = 2 * length ?recent"
    by (simp add: length_refsOf)
  have props: "even a \<and> b = a + 1 \<and> b < length msgs
           \<and> msg_role (msgs ! a) = User \<and> msg_role (msgs ! b) = Assistant"
    if "(a, b) \<in> set (pairsFrom msgs 0)" for a b
    using pairsFrom_props [OF that] by auto
  then have pb: "\<forall>(a, b) \<in> set (pairsFrom msgs 0).
           even a \<and> b = a + 1 \<and> b < length msgs
           \<and> msg_role (msgs ! a) = User \<and> msg_role (msgs ! b) = Assistant"
    by fast
  have len: "length (trimHistory msgs) \<le> 9" unfolding eq using lp l4 by simp
  have nn: "None \<notin> set (trimHistory msgs)" unfolding eq by (auto split: if_splits)
  have lst: "last (trimHistory msgs) = Some (last msgs)"
  proof (cases "?recent \<noteq> [] \<and> snd (last ?recent) = length msgs - 1")
    case False
    then show ?thesis unfolding eq by auto
  next
    case True
    then have ne: "?recent \<noteq> []" and sl: "snd (last ?recent) = length msgs - 1" by simp_all
    have "last ?pairs = last (map (map_option (\<lambda>i. msgs ! i)) (refsOf ?recent))"
      by (simp add: map_refsOf)
    also have "\<dots> = map_option (\<lambda>i. msgs ! i) (last (refsOf ?recent))"
      using ne by (simp add: last_map refsOf_Nil_iff)
    also have "\<dots> = Some (last msgs)" using last_refsOf [OF ne] sl lm by simp
    finally show ?thesis unfolding eq using True by simp
  qed
  from len lst nn l4 eq pb pairsFrom_sorted [of msgs 0] show ?thesis by (intro conjI)
qed

lemma trimHistory_conversation11:
  "conversation11 \<noteq> [] \<and> length conversation11 = 11
   \<and> trimHistory conversation11 = map Some (drop 2 conversation11)
   \<and> length (trimHistory conversation11) \<le> 9
   \<and> last (trimHistory conversation11) = Some (userMsg ''q5'')"
proof -
  have ne: "conversation11 \<noteq> []" and n: "length conversation11 = 11"
    and lc: "last conversation11 = userMsg ''q5''"
    by (simp_all add: conversation11_def)
  have p1: "pairsFrom conversation11 0 = [(0, 1), (2, 3), (4, 5), (6, 7), (8, 9)]"
    by (simp add: pairsFrom.simps conversation11_def userMsg_def assistantMsg_def)
  have p2: "trimHistoryRefs conversation11 = map Some [2, 3, 4, 5, 6, 7, 8, 9, 10]"
    by (simp add: trimHistoryRefs_def p1 sliceLast_def MAX_HISTORY_TURNS_def)
       (simp add: conversation11_def)
  have p3: "trimHistory conversation11 = map Some (drop 2 conversation11)"
    by (simp add: trimHistory_def p2) (simp add: conversation11_def)
  note c = trimHistory_shape [OF ne]
  have l: "length (trimHistory conversation11) \<le> 9" using c by (rule conjunct1)
  have "last (trimHistory conversation11) = Some (last conversation11)"
    using c by (rule conjunct1 [OF conjunct2])
  with lc have la: "last (trimHistory conversation11) = Some (userMsg ''q5'')" by simp
  from ne n p3 l la show ?thesis by (intro conjI)
qed

lemma pairs_unanswered12: "pairsFrom unanswered12 0 = [(0, 1)]"
  by (simp add: pairsFrom.simps unanswered12_def userMsg_def assistantMsg_def)

section \<open>Retry wrapper and agent loop\<close>

lemma take_eq_iff_prefix: "take (length sub) s = sub \<longleftrightarrow> (\<exists>post. s = sub @ post)"
proof
  assume "take (length sub) s = sub"
  then have "s = sub @ drop (length sub) s" by (metis append_take_drop_id)
  then show "\<exists>post. s = sub @ post" ..
next
  assume "\<exists>post. s = sub @ post"
  then show "take (length sub) s = sub" by auto
qed

lemma includes_str_iff: "includes_str s sub \<longleftrightarrow> (\<exists>pre post. s = pre @ sub @ post)"
proof (induction s)
  case Nil
  show ?case by auto
next
  case (Cons c cs)
  have "(\<exists>pre post. c # cs = pre @ sub @ post)
          \<longleftrightarrow> (\<exists>post. c # cs = sub @ post) \<or> (\<exists>pre post. cs = pre @ sub @ post)"
  proof
    assume "\<exists>pre post. c # cs = pre @ sub @ post"
    then obtain pre post where e: "c # cs = pre @ sub @ post" by blast
    show "(\<exists>post. c # cs = sub @ post) \<or> (\<exists>pre post. cs = pre @ sub @ post)"
    proof (cases pre)
      case Nil
      with e show ?thesis by auto
    next
      case (Cons p pre')
      with e have "cs = pre' @ sub @ post" by simp
      then show ?thesis by blast
    qed
  next
    assume "(\<exists>post. c # cs = sub @ post) \<or> (\<exists>pre post. cs = pre @ sub @ post)"
    then show "\<exists>pre post. c # cs = pre @ sub @ post"
    proof
      assume "\<exists>post. c # cs = sub @ post"
      then obtain post where "c # cs = [] @ sub @ post" by auto
      then show ?thesis by blast
    next
      assume "\<exists>pre post. cs = pre @ sub @ post"
      then obtain pre post where "c # cs = (c # pre) @ sub @ post" by auto
      then show ?thesis by blast
    qed
  qed
  with Cons.IH show ?case
    by (simp only: includes_str.simps take_eq_iff_prefix)
qed

lemma retry_trace_from:
  "a \<le> maxRetries \<Longrightarrow>
     \<exists>n. a < n \<and> n \<le> maxRetries + 1
       \<and> (\<forall>k. a \<le> k \<and> k < n - 1 \<longrightarrow> (\<exists>err. a_failure (provider k) = Some err \<and> is429 err))
       \<and> (n - 1 < maxRetries \<longrightarrow> (\<forall>err. a_failure (provider (n - 1)) = Some err \<longrightarrow> \<not> is429 err))
       \<and> streamEventsWithRetry provider maxRetries a
           = (concat (map (retrySegment provider) [a..<n - 1]) @ lastSegment provider (n - 1),
              case a_failure (provider (n - 1)) of
                None \<Rightarrow> Return | Some err \<Rightarrow> Throw (Thrown err))"
proof (induction provider maxRetries a rule: streamEventsWithRetry.induct)
  case (1 provider maxRetries a)
  note le = "1.prems"
  let ?goal = "\<lambda>n. a < n \<and> n \<le> maxRetries + 1
       \<and> (\<forall>k. a \<le> k \<and> k < n - 1 \<longrightarrow> (\<exists>err. a_failure (provider k) = Some err \<and> is429 err))
       \<and> (n - 1 < maxRetries \<longrightarrow> (\<forall>err. a_failure (provider (n - 1)) = Some err \<longrightarrow> \<not> is429 err))
       \<and> streamEventsWithRetry provider maxRetries a
           = (concat (map (retrySegment provider) [a..<n - 1]) @ lastSegment provider (n - 1),
              case a_failure (provider (n - 1)) of
                None \<Rightarrow> Return | Some err \<Rightarrow> Throw (Thrown err))"
  show ?case
  proof (cases "a_failure (provider a)")
    case None
    with le have "?goal (a + 1)"
      by (auto simp: streamEventsWithRetry.simps [of provider maxRetries a] prependActions_def
            lastSegment_def)
    then show ?thesis by blast
  next
    case (Some err)
    show ?thesis
    proof (cases "is429 err \<and> a < maxRetries")
      case False
      with le Some have "?goal (a + 1)"
        by (auto simp: streamEventsWithRetry.simps [of provider maxRetries a] prependActions_def
              lastSegment_def)
      then show ?thesis by blast
    next
      case True
      then have "a + 1 \<le> maxRetries" by simp
      from "1.IH" [OF le Some True this] obtain n where
        n: "a + 1 < n" "n \<le> maxRetries + 1"
        and all: "\<forall>k. a + 1 \<le> k \<and> k < n - 1 \<longrightarrow> (\<exists>err. a_failure (provider k) = Some err \<and> is429 err)"
        and stop: "n - 1 < maxRetries \<longrightarrow> (\<forall>err. a_failure (provider (n - 1)) = Some err \<longrightarrow> \<not> is429 err)"
        and tr: "streamEventsWithRetry provider maxRetries (a + 1)
           = (concat (map (retrySegment provider) [a + 1..<n - 1]) @ lastSegment provider (n - 1),
              case a_failure (provider (n - 1)) of
                None \<Rightarrow> Return | Some err \<Rightarrow> Throw (Thrown err))"
        by blast
      from n have up: "[a..<n - 1] = a # [a + 1..<n - 1]" by (simp add: upt_conv_Cons)
      have all': "\<forall>k. a \<le> k \<and> k < n - 1 \<longrightarrow> (\<exists>err. a_failure (provider k) = Some err \<and> is429 err)"
      proof (intro allI impI)
        fix k assume k: "a \<le> k \<and> k < n - 1"
        show "\<exists>err. a_failure (provider k) = Some err \<and> is429 err"
        proof (cases "k = a")
          case True
          with Some \<open>is429 err \<and> a < maxRetries\<close> show ?thesis by simp
        next
          case False
          with k all show ?thesis by simp
        qed
      qed
      have "streamEventsWithRetry provider maxRetries a
           = (concat (map (retrySegment provider) [a..<n - 1]) @ lastSegment provider (n - 1),
              case a_failure (provider (n - 1)) of
                None \<Rightarrow> Return | Some err \<Rightarrow> Throw (Thrown err))"
        using le Some True
        by (simp add: streamEventsWithRetry.simps [of provider maxRetries a] prependActions_def
              tr [simplified] up [simplified] retrySegment_def)
      with n all' stop have "?goal n" by simp
      then show ?thesis by blast
    qed
  qed
qed

lemma opens_retrySegment: "length (filter isOpen (retrySegment provider k)) = 1"
  by (simp add: retrySegment_def isOpen_def filter_map o_def)

lemma opens_lastSegment: "length (filter isOpen (lastSegment provider k)) = 1"
  by (simp add: lastSegment_def isOpen_def filter_map o_def)

lemma opens_segments:
  "length (filter isOpen (concat (map (retrySegment provider) ks))) = length ks"
  by (induction ks) (simp_all add: opens_retrySegment)

lemma is429_iff:
  "is429 e \<longleftrightarrow>
     e_status e = Some 429
     \<or> (\<exists>m pre post. e_message e = Some m \<and> m = pre @ ''rate_limit'' @ post)"
  by (auto simp: is429_def includes_str_iff split: option.splits)

lemma run_rateLimitedTwice:
  "streamEventsWithRetry rateLimitedTwice 3 0 =
     ([Open 0, Write (SSE_retrying 15), Sleep 15000,
       Open 1, Yield (Content_block_delta (Text_delta ''Let me check'')) 1,
       Write (SSE_retrying 30), Sleep 30000,
       Open 2, Yield (Content_block_delta (Text_delta ''Hello'')) 2,
       Yield (Message_delta (Some ''end_turn'')) 2],
      Return)"
  by code_simp

lemma run_serverOverloaded:
  "streamEventsWithRetry serverOverloaded 3 0 =
     ([Open 0], Throw (Thrown \<lparr> e_status = Some 529, e_message = Some ''overloaded'' \<rparr>))"
  by code_simp

lemma run_alwaysRateLimited:
  "streamEventsWithRetry alwaysRateLimited 5 0 =
     ([Open 0, Write (SSE_retrying 15), Sleep 15000,
       Open 1, Write (SSE_retrying 30), Sleep 30000,
       Open 2, Write (SSE_retrying 45), Sleep 45000,
       Open 3, Write (SSE_retrying 60), Sleep 60000,
       Open 4, Write (SSE_retrying 60), Sleep 60000,
       Open 5],
      Throw (Thrown \<lparr> e_status = Some 429, e_message = None \<rparr>))"
  by code_simp

lemma handleEvent_no_done: "SSE_done \<notin> set (snd (handleEvent t ev))"
  by (induction t ev rule: handleEvent.induct) (auto split: option.splits)

lemma generator_writes:
  "Write ev \<in> set (fst (streamEventsWithRetry provider maxRetries a)) \<Longrightarrow> \<exists>w. ev = SSE_retrying w"
proof (induction provider maxRetries a rule: streamEventsWithRetry.induct)
  case (1 provider maxRetries a)
  show ?case
  proof (cases "a \<le> maxRetries")
    case False
    with "1.prems" show ?thesis
      by (simp add: streamEventsWithRetry.simps [of provider maxRetries a])
  next
    case le: True
    show ?thesis
    proof (cases "a_failure (provider a)")
      case None
      with le "1.prems" show ?thesis
        by (auto simp: streamEventsWithRetry.simps [of provider maxRetries a] prependActions_def)
    next
      case (Some err)
      show ?thesis
      proof (cases "is429 err \<and> a < maxRetries")
        case False
        with le Some "1.prems" show ?thesis
          by (auto simp: streamEventsWithRetry.simps [of provider maxRetries a] prependActions_def)
      next
        case True
        with le Some "1.prems"
        have "ev = SSE_retrying (min 60 (15 * (a + 1)))
              \<or> Write ev \<in> set (fst (streamEventsWithRetry provider maxRetries (a + 1)))"
          by (auto simp: streamEventsWithRetry.simps [of provider maxRetries a] prependActions_def)
        with "1.IH" [OF le Some True] show ?thesis by blast
      qed
    qed
  qed
qed

lemma consume_no_done:
  "(\<And>ev. Write ev \<in> set acts \<Longrightarrow> ev \<noteq> SSE_done) \<Longrightarrow> SSE_done \<notin> set (snd (consume t acts))"
proof (induction t acts rule: consume.induct)
  case (5 t ev k acts)
  then show ?case by (auto simp: handleEvent_no_done)
qed auto

lemma runTools_no_done: "SSE_done \<notin> set (runTools env turn k tools)"
  by (induction tools arbitrary: k) (auto split: sum.splits)

lemma runTurn_no_done: "SSE_done \<notin> set (fst (runTurn env turn))"
proof -
  let ?gen = "streamEventsWithRetry (stream env turn) 3 0"
  have "SSE_done \<notin> set (snd (consume initialTurn (fst ?gen)))"
  proof (rule consume_no_done)
    fix ev assume "Write ev \<in> set (fst ?gen)"
    from generator_writes [OF this] show "ev \<noteq> SSE_done" by auto
  qed
  then show ?thesis
    by (auto simp: runTurn_def Let_def runTools_no_done
             split: genOutcome.splits option.splits if_splits)
qed

lemma agentLoop_no_done:
  assumes run: "agentLoop env turn written = Some y"
  shows "SSE_done \<notin> set written \<longrightarrow> SSE_done \<notin> set (fst y)"
proof (rule agentLoop.raw_induct
         [where P = "\<lambda>env turn written y. SSE_done \<notin> set written \<longrightarrow> SSE_done \<notin> set (fst y)",
          OF _ run])
  fix loop :: "agentEnv \<Rightarrow> nat \<Rightarrow> SSEEvent list \<Rightarrow> (SSEEvent list \<times> error option) option"
  fix env turn written y
  assume IH: "\<And>env turn written y. loop env turn written = Some y \<Longrightarrow>
                 SSE_done \<notin> set written \<longrightarrow> SSE_done \<notin> set (fst y)"
  assume eq: "(case snd (runTurn env turn) of
                Continue \<Rightarrow> loop env (turn + 1) (written @ fst (runTurn env turn))
              | Stop \<Rightarrow> Some (written @ fst (runTurn env turn), None)
              | Failed e \<Rightarrow> Some (written @ fst (runTurn env turn), Some e)) = Some y"
  show "SSE_done \<notin> set written \<longrightarrow> SSE_done \<notin> set (fst y)"
  proof
    assume nd: "SSE_done \<notin> set written"
    show "SSE_done \<notin> set (fst y)"
    proof (cases "snd (runTurn env turn)")
      case Continue
      with eq have "loop env (turn + 1) (written @ fst (runTurn env turn)) = Some y"
        by simp
      from IH [OF this] nd runTurn_no_done [of env turn] show ?thesis by auto
    next
      case Stop
      with eq nd runTurn_no_done [of env turn] show ?thesis by auto
    next
      case (Failed e)
      with eq nd runTurn_no_done [of env turn] show ?thesis by auto
    qed
  qed
qed

lemma trimHistory_defined: "msgs \<noteq> [] \<Longrightarrow> None \<notin> set (trimHistory msgs)"
  by (auto simp: trimHistory_def trimHistoryRefs_eq refsOf_def split: if_splits)

lemma mapThrowing_total:
  "(\<And>x. x \<in> set xs \<Longrightarrow> \<exists>y. f x = Inr y) \<Longrightarrow> \<exists>ys. mapThrowing f xs = Inr ys"
proof (induction xs)
  case Nil
  show ?case by simp
next
  case (Cons x xs)
  from Cons.prems obtain y where "f x = Inr y" by auto
  moreover from Cons obtain ys where "mapThrowing f xs = Inr ys" by auto
  ultimately show ?case by simp
qed

lemma anthropicMessages_nonempty:
  assumes "msgs \<noteq> []"
  shows "\<exists>ms. anthropicMessages msgs = Inr ms"
  unfolding anthropicMessages_def
proof (rule mapThrowing_total)
  fix m assume "m \<in> set (trimHistory msgs)"
  with trimHistory_defined [OF assms] have "m \<noteq> None" by metis
  then show "\<exists>y. (case m of None \<Rightarrow> Inl TypeError
                    | Some c \<Rightarrow> Inr (msg_role c, msg_content c)) = Inr y"
    by (cases m) auto
qed

lemma streamAgent_done_last:
  assumes "msgs \<noteq> []" and "streamAgent env msgs = Some (written, how)"
  shows "how = Resolved \<and> written \<noteq> [] \<and> last written = SSE_done
         \<and> length (filter (\<lambda>ev. ev = SSE_done) written) = 1"
proof -
  from anthropicMessages_nonempty [OF assms(1)] obtain ms where
    ms: "anthropicMessages msgs = Inr ms" by blast
  with assms(2) obtain out err where
    loop: "agentLoop env 0 [] = Some (out, err)"
    and w: "written = out @ (case err of None \<Rightarrow> [SSE_done]
                               | Some e \<Rightarrow> [SSE_error (errorMessage e), SSE_done])"
    and h: "how = Resolved"
    by (auto simp: streamAgent_def split: option.splits)
  from agentLoop_no_done [OF loop] have "SSE_done \<notin> set out" by simp
  then have "filter (\<lambda>ev. ev = SSE_done) out = []" by (auto simp: filter_empty_conv)
  with w h show ?thesis by (cases err) simp_all
qed

section \<open>Two runs of the agent loop\<close>

lemma turns_demo:
  "runTurn demoEnv 0 =
     ([SSE_text ''Let me check'', SSE_tool_call ''get_gym_simulations'',
       SSE_tool_result ''get_gym_simulations'' True None], Continue)"
  "runTurn demoEnv (Suc 0) = ([SSE_text ''Here are the gyms''], Stop)"
  by code_simp+

lemma turns_failing:
  "runTurn failingEnv 0 =
     ([SSE_text ''Let me''], Failed (Thrown \<lparr> e_status = Some 529, e_message = Some ''overloaded'' \<rparr>))"
  by code_simp

lemma messages_question: "anthropicMessages question = Inr [(User, ''last gyms of automac?'')]"
  by (simp add: anthropicMessages_def trimHistory_def trimHistoryRefs_def pairsFrom.simps
        sliceLast_def question_def)

lemma run_demo:
  "streamAgent demoEnv question =
     Some ([SSE_text ''Let me check'', SSE_tool_call ''get_gym_simulations'',
            SSE_tool_result ''get_gym_simulations'' True None,
            SSE_text ''Here are the gyms'', SSE_done], Resolved)"
proof -
  have "agentLoop demoEnv (Suc 0) [SSE_text ''Let me check'', SSE_tool_call ''get_gym_simulations'',
            SSE_tool_result ''get_gym_simulations'' True None]
          = Some ([SSE_text ''Let me check'', SSE_tool_call ''get_gym_simulations'',
                   SSE_tool_result ''get_gym_simulations'' True None,
                   SSE_text ''Here are the gyms''], None)"
    by (subst agentLoop.simps) (simp add: turns_demo)
  then have "agentLoop demoEnv 0 []
          = Some ([SSE_text ''Let me check'', SSE_tool_call ''get_gym_simulations'',
                   SSE_tool_result ''get_gym_simulations'' True None,
                   SSE_text ''Here are the gyms''], None)"
    by (subst agentLoop.simps) (simp add: turns_demo)
  then show ?thesis by (simp add: streamAgent_def messages_question)
qed

lemma run_failing:
  "streamAgent failingEnv question =
     Some ([SSE_text ''Let me'', SSE_error (Some ''overloaded''), SSE_done], Resolved)"
proof -
  have "agentLoop failingEnv 0 []
          = Some ([SSE_text ''Let me''],
                  Some (Thrown \<lparr> e_status = Some 529, e_message = Some ''overloaded'' \<rparr>))"
    by (subst agentLoop.simps) (simp add: turns_failing)
  then show ?thesis by (simp add: streamAgent_def messages_question errorMessage_def)
qed

section \<open>The claims\<close>

text \<open>
  Claim C5. In Stage A a scanned submission becomes a candidate session if and only if
  its contest identifier is present and exceeds 100000 and its author's participation
  type is exactly \<open>VIRTUAL\<close>. A candidate's key is in the map after it was scanned;
  a record of any other participation type (the upsolving type \<open>PRACTICE\<close> among
  them), or with an identifier at or below 100000, leaves the map as it was, whatever
  its other fields; and the keys added by a page are exactly those of its candidates.
\<close>

theorem C5_candidate_filter:
  "((isGym s \<and> isVirtual s) \<longleftrightarrow>
      (\<exists>c. s_contestId s = Some c \<and> c > 100000) \<and> p_participantType (s_author s) = VIRTUAL)
   \<and> (\<forall>c. s_contestId s = Some c \<and> c > 100000 \<and> p_participantType (s_author s) = VIRTUAL
          \<longrightarrow> has (scanSubmission sessions s) (sessionKey c (startTime s)))
   \<and> (p_participantType (s_author s) \<noteq> VIRTUAL \<longrightarrow> scanSubmission sessions s = sessions)
   \<and> ((\<forall>c. s_contestId s = Some c \<longrightarrow> c \<le> 100000) \<longrightarrow> scanSubmission sessions s = sessions)
   \<and> fst ` set (foldl scanSubmission sessions subs) =
         fst ` set sessions \<union>
         submissionKey ` {s \<in> set subs. (\<exists>c. s_contestId s = Some c \<and> c > 100000)
                                          \<and> p_participantType (s_author s) = VIRTUAL}"
proof (intro conjI allI impI)
  show "(isGym s \<and> isVirtual s) \<longleftrightarrow>
      (\<exists>c. s_contestId s = Some c \<and> c > 100000) \<and> p_participantType (s_author s) = VIRTUAL"
    by (rule candidate_iff)
next
  fix c
  assume a: "s_contestId s = Some c \<and> c > 100000 \<and> p_participantType (s_author s) = VIRTUAL"
  then have "isGym s \<and> isVirtual s" by (simp add: candidate_iff)
  then have "submissionKey s \<in> fst ` set (scanSubmission sessions s)"
    by (simp add: keys_scanSubmission)
  with a show "has (scanSubmission sessions s) (sessionKey c (startTime s))"
    by (simp add: has_def submissionKey_Some)
next
  assume "p_participantType (s_author s) \<noteq> VIRTUAL"
  then show "scanSubmission sessions s = sessions"
    by (simp add: scanSubmission_def isVirtual_def)
next
  assume "\<forall>c. s_contestId s = Some c \<longrightarrow> c \<le> 100000"
  then have "\<not> isGym s" by (auto simp: isGym_def split: option.splits)
  then show "scanSubmission sessions s = sessions"
    by (simp add: scanSubmission_def)
next
  show "fst ` set (foldl scanSubmission sessions subs) =
         fst ` set sessions \<union>
         submissionKey ` {s \<in> set subs. (\<exists>c. s_contestId s = Some c \<and> c > 100000)
                                          \<and> p_participantType (s_author s) = VIRTUAL}"
    by (simp only: keys_foldl candidate_iff)
qed

theorem C5_candidate_filter_witness:
  "s_contestId (SUBS_ONE_SIM ! 0) = Some 105789 \<and> (105789::int) > 100000
   \<and> p_participantType (s_author (SUBS_ONE_SIM ! 0)) = VIRTUAL
   \<and> has (scanSubmission [] (SUBS_ONE_SIM ! 0)) (sessionKey 105789 T1)
   \<and> p_participantType (s_author (SUBS_ONE_SIM ! 2)) = PRACTICE
   \<and> scanSubmission [] (SUBS_ONE_SIM ! 2) = []
   \<and> s_contestId (SUBS_ONE_SIM ! 3) = Some 2172 \<and> (2172::int) \<le> 100000
   \<and> scanSubmission [] (SUBS_ONE_SIM ! 3) = []
   \<and> fst ` set (foldl scanSubmission [] SUBS_ONE_SIM) = {''105789_1771797960''}"
proof -
  have s0: "s_contestId (SUBS_ONE_SIM ! 0) = Some 105789 \<and> (105789::int) > 100000
            \<and> p_participantType (s_author (SUBS_ONE_SIM ! 0)) = VIRTUAL"
    and st: "startTime (SUBS_ONE_SIM ! 0) = T1"
    and s2: "p_participantType (s_author (SUBS_ONE_SIM ! 2)) = PRACTICE"
    and s3: "s_contestId (SUBS_ONE_SIM ! 3) = Some 2172"
    by (simp_all add: SUBS_ONE_SIM_def startTime_def)
  have k: "foldl scanSubmission [] SUBS_ONE_SIM
             = [(''105789_1771797960'', newSession (SUBS_ONE_SIM ! 0))]"
    by code_simp
  from C5_candidate_filter [of "SUBS_ONE_SIM ! 0" "[]" SUBS_ONE_SIM] s0 st
  have "has (scanSubmission [] (SUBS_ONE_SIM ! 0)) (sessionKey 105789 T1)" by metis
  moreover from C5_candidate_filter [of "SUBS_ONE_SIM ! 2" "[]" "[]"] s2
  have "scanSubmission [] (SUBS_ONE_SIM ! 2) = []" by simp
  moreover from C5_candidate_filter [of "SUBS_ONE_SIM ! 3" "[]" "[]"] s3
  have "scanSubmission [] (SUBS_ONE_SIM ! 3) = []" by simp
  moreover from k have "fst ` set (foldl scanSubmission [] SUBS_ONE_SIM) = {''105789_1771797960''}"
    by simp
  ultimately show ?thesis using s0 s2 s3 by simp
qed

text \<open>
  Claim C6. Deduplication is first-seen-wins and idempotent. Scanning any list of
  submissions into an empty map leaves no key twice; for every candidate in the list
  there is exactly one stored session with its contest identifier and start time, and
  that session takes its team name and its member handles, sorted, from the first
  candidate of the list with that identifier and start time; every stored member list
  is sorted; scanning further records whose keys are already present leaves the map
  unchanged, and so does scanning the same list a second time. What \<open>scanPages\<close>
  returns is such a scan of the submissions it fetched.
\<close>

theorem C6_dedup_first_seen:
  "distinct (map fst (foldl scanSubmission [] subs))
   \<and> (\<forall>s \<in> set subs. isGym s \<and> isVirtual s \<longrightarrow>
        (\<exists>f c. List.find (\<lambda>r. isGym r \<and> isVirtual r \<and> s_contestId r = s_contestId s
                                 \<and> startTime r = startTime s) subs = Some f
              \<and> s_contestId s = Some c
              \<and> filter (\<lambda>v. sim_contestId v = c \<and> sim_startTimeSeconds v = startTime s)
                   (map snd (foldl scanSubmission [] subs))
                 = [\<lparr> sim_contestId = c, sim_startTimeSeconds = startTime s,
                       sim_teamName = p_teamName (s_author f),
                       sim_members = sort (map m_handle (p_members (s_author f))) \<rparr>]))
   \<and> (\<forall>v \<in> snd ` set (foldl scanSubmission [] subs). sorted (sim_members v))
   \<and> ((\<forall>r \<in> set rest. has sessions (submissionKey r))
        \<longrightarrow> foldl scanSubmission sessions rest = sessions)
   \<and> foldl scanSubmission (foldl scanSubmission [] subs) subs = foldl scanSubmission [] subs
   \<and> (\<forall>out. scanPages api handle limit 0 1 [] = Inr out
        \<longrightarrow> (\<exists>scanned. out = foldl scanSubmission [] scanned))"
proof -
  let ?out = "foldl scanSubmission [] subs"
  have k: "keyed ?out" using keyed_Nil by (rule keyed_foldl)
  then have d: "distinct (map fst ?out)" by (simp add: keyed_def)
  have one: "\<exists>f c. List.find (\<lambda>r. isGym r \<and> isVirtual r \<and> s_contestId r = s_contestId s
                                 \<and> startTime r = startTime s) subs = Some f
              \<and> s_contestId s = Some c
              \<and> filter (\<lambda>v. sim_contestId v = c \<and> sim_startTimeSeconds v = startTime s)
                   (map snd ?out)
                 = [\<lparr> sim_contestId = c, sim_startTimeSeconds = startTime s,
                       sim_teamName = p_teamName (s_author f),
                       sim_members = sort (map m_handle (p_members (s_author f))) \<rparr>]"
    if s: "s \<in> set subs" and g: "isGym s" and v: "isVirtual s" for s
  proof -
    let ?Q = "\<lambda>r. isGym r \<and> isVirtual r \<and> s_contestId r = s_contestId s \<and> startTime r = startTime s"
    from scan_first_seen [OF s g v] obtain f where
      f: "List.find ?Q subs = Some f"
      and m: "map_of ?out (submissionKey s) = Some (newSession f)"
      by blast
    from g obtain c where c: "s_contestId s = Some c" using candidate_contestId by blast
    from f have "?Q f" by (auto simp: find_Some_iff)
    with c have fc: "s_contestId f = Some c" and ft: "startTime f = startTime s" by simp_all
    have key: "submissionKey s = sessionKey c (startTime s)" using c by (rule submissionKey_Some)
    have "filter (\<lambda>p. fst p = sessionKey c (startTime s)) ?out
            = [(sessionKey c (startTime s), newSession f)]"
      using d m unfolding key by (rule filter_key_single)
    then have "filter (\<lambda>v. sim_contestId v = c \<and> sim_startTimeSeconds v = startTime s) (map snd ?out)
                 = [newSession f]"
      by (simp add: scan_sessions_of_key [OF k])
    moreover have "newSession f = \<lparr> sim_contestId = c, sim_startTimeSeconds = startTime s,
                       sim_teamName = p_teamName (s_author f),
                       sim_members = sort (map m_handle (p_members (s_author f))) \<rparr>"
      by (simp add: newSession_def fc ft)
    ultimately show ?thesis using f c by simp
  qed
  have srt: "sorted (sim_members v)" if "v \<in> snd ` set ?out" for v
    using scan_values [OF that] by (auto simp: sorted_members_newSession)
  have unch: "foldl scanSubmission sessions rest = sessions"
    if "\<forall>r \<in> set rest. has sessions (submissionKey r)"
    using that by (intro scan_unchanged) blast
  have idem: "foldl scanSubmission ?out subs = ?out"
  proof (rule scan_unchanged_cand)
    fix r assume "r \<in> set subs" "isGym r" "isVirtual r"
    then have "submissionKey r \<in> fst ` set ?out" by (auto simp: keys_foldl)
    then show "has ?out (submissionKey r)" by (simp add: has_def)
  qed
  have pages: "\<exists>scanned. out = foldl scanSubmission [] scanned"
    if "scanPages api handle limit 0 1 [] = Inr out" for out
    using that by (rule scanPages_foldl)
  from d one srt unch idem pages show ?thesis by blast
qed

theorem C6_dedup_first_seen_witness:
  "SUBS_SAME_KEY ! 1 \<in> set SUBS_SAME_KEY
   \<and> isGym (SUBS_SAME_KEY ! 1) \<and> isVirtual (SUBS_SAME_KEY ! 1)
   \<and> filter (\<lambda>v. sim_contestId v = 105789 \<and> sim_startTimeSeconds v = T1)
        (map snd (foldl scanSubmission [] SUBS_SAME_KEY))
      = [\<lparr> sim_contestId = 105789, sim_startTimeSeconds = T1,
            sim_teamName = Some ''first'', sim_members = [''automac'', ''juancs''] \<rparr>]
   \<and> has (foldl scanSubmission [] [SUBS_SAME_KEY ! 0]) (submissionKey (SUBS_SAME_KEY ! 1))
   \<and> foldl scanSubmission (foldl scanSubmission [] [SUBS_SAME_KEY ! 0]) [SUBS_SAME_KEY ! 1]
      = foldl scanSubmission [] [SUBS_SAME_KEY ! 0]"
proof -
  let ?s = "SUBS_SAME_KEY ! 1"
  let ?one = "foldl scanSubmission [] [SUBS_SAME_KEY ! 0]"
  have mem: "?s \<in> set SUBS_SAME_KEY" and cand: "isGym ?s \<and> isVirtual ?s"
    and st: "startTime ?s = T1" and cid: "s_contestId ?s = Some 105789"
    by (simp_all add: SUBS_SAME_KEY_def isGym_def isVirtual_def startTime_def)
  have fnd: "List.find (\<lambda>r. isGym r \<and> isVirtual r \<and> s_contestId r = s_contestId ?s
                                 \<and> startTime r = startTime ?s) SUBS_SAME_KEY
               = Some (SUBS_SAME_KEY ! 0)"
    by code_simp
  have first: "p_teamName (s_author (SUBS_SAME_KEY ! 0)) = Some ''first''"
    "sort (map m_handle (p_members (s_author (SUBS_SAME_KEY ! 0)))) = [''automac'', ''juancs'']"
    by code_simp+
  have h: "has ?one (submissionKey ?s)" by code_simp
  note inst = C6_dedup_first_seen [of SUBS_SAME_KEY "[?s]" ?one]
  from inst mem cand obtain f c where
    "List.find (\<lambda>r. isGym r \<and> isVirtual r \<and> s_contestId r = s_contestId ?s
                                 \<and> startTime r = startTime ?s) SUBS_SAME_KEY = Some f"
    "s_contestId ?s = Some c"
    "filter (\<lambda>v. sim_contestId v = c \<and> sim_startTimeSeconds v = startTime ?s)
                   (map snd (foldl scanSubmission [] SUBS_SAME_KEY))
                 = [\<lparr> sim_contestId = c, sim_startTimeSeconds = startTime ?s,
                       sim_teamName = p_teamName (s_author f),
                       sim_members = sort (map m_handle (p_members (s_author f))) \<rparr>]"
    by blast
  with fnd cid st first
  have 1: "filter (\<lambda>v. sim_contestId v = 105789 \<and> sim_startTimeSeconds v = T1)
        (map snd (foldl scanSubmission [] SUBS_SAME_KEY))
      = [\<lparr> sim_contestId = 105789, sim_startTimeSeconds = T1,
            sim_teamName = Some ''first'', sim_members = [''automac'', ''juancs''] \<rparr>]"
    by simp
  from inst h have 2: "foldl scanSubmission ?one [?s] = ?one" by simp
  from mem cand 1 h 2 show ?thesis by simp
qed

text \<open>
  Claim C10. The start time of a candidate, used in its deduplication key and stored as
  the session's \<open>startTimeSeconds\<close> (which Stage F renders as \<open>simulatedAt\<close>), is the
  author's \<open>startTimeSeconds\<close> when present and the submission's
  \<open>creationTimeSeconds\<close> otherwise. Hence two candidates of the same contest whose
  authors carry no start time and whose creation times differ are filed under different
  keys, as two sessions, each with its own creation time as start time.
\<close>

theorem C10_start_time_fallback:
  "(isGym s \<and> isVirtual s \<and> \<not> has sessions (submissionKey s) \<longrightarrow>
      (\<exists>c v. s_contestId s = Some c
         \<and> scanSubmission sessions s =
             sessions @ [(sessionKey c (case p_startTimeSeconds (s_author s) of
                                          Some t \<Rightarrow> t | None \<Rightarrow> s_creationTimeSeconds s), v)]
         \<and> sim_startTimeSeconds v = (case p_startTimeSeconds (s_author s) of
                                       Some t \<Rightarrow> t | None \<Rightarrow> s_creationTimeSeconds s)))
   \<and> (\<forall>s1 \<in> set subs. \<forall>s2 \<in> set subs.
         isGym s1 \<and> isVirtual s1 \<and> isGym s2 \<and> isVirtual s2
         \<and> s_contestId s1 = s_contestId s2
         \<and> p_startTimeSeconds (s_author s1) = None \<and> p_startTimeSeconds (s_author s2) = None
         \<and> s_creationTimeSeconds s1 \<noteq> s_creationTimeSeconds s2 \<longrightarrow>
         (\<exists>v1 v2. map_of (foldl scanSubmission [] subs) (submissionKey s1) = Some v1
             \<and> map_of (foldl scanSubmission [] subs) (submissionKey s2) = Some v2
             \<and> submissionKey s1 \<noteq> submissionKey s2
             \<and> sim_contestId v1 = sim_contestId v2
             \<and> sim_startTimeSeconds v1 = s_creationTimeSeconds s1
             \<and> sim_startTimeSeconds v2 = s_creationTimeSeconds s2))"
proof (intro conjI impI ballI)
  assume a: "isGym s \<and> isVirtual s \<and> \<not> has sessions (submissionKey s)"
  then obtain c where c: "s_contestId s = Some c" using candidate_contestId by blast
  from a c have "scanSubmission sessions s =
      sessions @ [(sessionKey c (startTime s), newSession s)]"
    by (simp add: scanSubmission_def submissionKey_Some)
  moreover have "sim_startTimeSeconds (newSession s) = startTime s" by (simp add: newSession_def)
  ultimately show "\<exists>c v. s_contestId s = Some c
         \<and> scanSubmission sessions s =
             sessions @ [(sessionKey c (case p_startTimeSeconds (s_author s) of
                                          Some t \<Rightarrow> t | None \<Rightarrow> s_creationTimeSeconds s), v)]
         \<and> sim_startTimeSeconds v = (case p_startTimeSeconds (s_author s) of
                                       Some t \<Rightarrow> t | None \<Rightarrow> s_creationTimeSeconds s)"
    using c unfolding startTime_def by blast
next
  fix s1 s2
  assume m1: "s1 \<in> set subs" and m2: "s2 \<in> set subs"
  assume a: "isGym s1 \<and> isVirtual s1 \<and> isGym s2 \<and> isVirtual s2
         \<and> s_contestId s1 = s_contestId s2
         \<and> p_startTimeSeconds (s_author s1) = None \<and> p_startTimeSeconds (s_author s2) = None
         \<and> s_creationTimeSeconds s1 \<noteq> s_creationTimeSeconds s2"
  let ?out = "foldl scanSubmission [] subs"
  from a have t1: "startTime s1 = s_creationTimeSeconds s1"
    and t2: "startTime s2 = s_creationTimeSeconds s2"
    by (simp_all add: startTime_def)
  from a obtain c where c1: "s_contestId s1 = Some c" and c2: "s_contestId s2 = Some c"
    using candidate_contestId [of s1] by auto
  from scan_first_seen [OF m1] a obtain f1 where
    f1: "List.find (\<lambda>r. isGym r \<and> isVirtual r \<and> s_contestId r = s_contestId s1
                              \<and> startTime r = startTime s1) subs = Some f1"
    and o1: "map_of ?out (submissionKey s1) = Some (newSession f1)" by blast
  from scan_first_seen [OF m2] a obtain f2 where
    f2: "List.find (\<lambda>r. isGym r \<and> isVirtual r \<and> s_contestId r = s_contestId s2
                              \<and> startTime r = startTime s2) subs = Some f2"
    and o2: "map_of ?out (submissionKey s2) = Some (newSession f2)" by blast
  from f1 have p1: "s_contestId f1 = Some c \<and> startTime f1 = startTime s1"
    by (auto simp: find_Some_iff c1)
  from f2 have p2: "s_contestId f2 = Some c \<and> startTime f2 = startTime s2"
    by (auto simp: find_Some_iff c2)
  from a t1 t2 have ne: "submissionKey s1 \<noteq> submissionKey s2"
    by (simp add: candidate_key_eq)
  have "sim_contestId (newSession f1) = sim_contestId (newSession f2)"
    "sim_startTimeSeconds (newSession f1) = s_creationTimeSeconds s1"
    "sim_startTimeSeconds (newSession f2) = s_creationTimeSeconds s2"
    using p1 p2 t1 t2 by (simp_all add: newSession_def)
  with o1 o2 ne
  show "\<exists>v1 v2. map_of ?out (submissionKey s1) = Some v1
             \<and> map_of ?out (submissionKey s2) = Some v2
             \<and> submissionKey s1 \<noteq> submissionKey s2
             \<and> sim_contestId v1 = sim_contestId v2
             \<and> sim_startTimeSeconds v1 = s_creationTimeSeconds s1
             \<and> sim_startTimeSeconds v2 = s_creationTimeSeconds s2"
    by blast
qed

theorem C10_start_time_fallback_witness:
  "SUBS_NO_START ! 0 \<in> set SUBS_NO_START \<and> SUBS_NO_START ! 1 \<in> set SUBS_NO_START
   \<and> isGym (SUBS_NO_START ! 0) \<and> isVirtual (SUBS_NO_START ! 0)
   \<and> isGym (SUBS_NO_START ! 1) \<and> isVirtual (SUBS_NO_START ! 1)
   \<and> s_contestId (SUBS_NO_START ! 0) = s_contestId (SUBS_NO_START ! 1)
   \<and> p_startTimeSeconds (s_author (SUBS_NO_START ! 0)) = None
   \<and> p_startTimeSeconds (s_author (SUBS_NO_START ! 1)) = None
   \<and> s_creationTimeSeconds (SUBS_NO_START ! 0) \<noteq> s_creationTimeSeconds (SUBS_NO_START ! 1)
   \<and> submissionKey (SUBS_NO_START ! 0) \<noteq> submissionKey (SUBS_NO_START ! 1)
   \<and> (\<exists>v1 v2. map_of (foldl scanSubmission [] SUBS_NO_START) (submissionKey (SUBS_NO_START ! 0)) = Some v1
         \<and> map_of (foldl scanSubmission [] SUBS_NO_START) (submissionKey (SUBS_NO_START ! 1)) = Some v2
         \<and> sim_startTimeSeconds v1 = T1 + 100 \<and> sim_startTimeSeconds v2 = T1 + 200)
   \<and> map fst (foldl scanSubmission [] SUBS_NO_START) = [''105789_1771798060'', ''105789_1771798160'']"
proof -
  let ?a = "SUBS_NO_START ! 0" and ?b = "SUBS_NO_START ! 1"
  have hyp: "?a \<in> set SUBS_NO_START" "?b \<in> set SUBS_NO_START"
    "isGym ?a \<and> isVirtual ?a \<and> isGym ?b \<and> isVirtual ?b
         \<and> s_contestId ?a = s_contestId ?b
         \<and> p_startTimeSeconds (s_author ?a) = None \<and> p_startTimeSeconds (s_author ?b) = None
         \<and> s_creationTimeSeconds ?a \<noteq> s_creationTimeSeconds ?b"
    by (simp_all add: SUBS_NO_START_def isGym_def isVirtual_def)
  have ct: "s_creationTimeSeconds ?a = T1 + 100" "s_creationTimeSeconds ?b = T1 + 200"
    by (simp_all add: SUBS_NO_START_def)
  have keys: "map fst (foldl scanSubmission [] SUBS_NO_START)
                = [''105789_1771798060'', ''105789_1771798160'']"
    by code_simp
  from C10_start_time_fallback [of ?a "[]" SUBS_NO_START] hyp
  have "\<exists>v1 v2. map_of (foldl scanSubmission [] SUBS_NO_START) (submissionKey ?a) = Some v1
             \<and> map_of (foldl scanSubmission [] SUBS_NO_START) (submissionKey ?b) = Some v2
             \<and> submissionKey ?a \<noteq> submissionKey ?b
             \<and> sim_contestId v1 = sim_contestId v2
             \<and> sim_startTimeSeconds v1 = s_creationTimeSeconds ?a
             \<and> sim_startTimeSeconds v2 = s_creationTimeSeconds ?b"
    by blast
  with ct hyp keys show ?thesis by auto
qed

text \<open>
  Claim C9. Every \<open>GymResult\<close> that \<open>getGymSimulations\<close> returns has a non-empty
  member list: entry \<open>j\<close> carries the members of the \<open>j\<close>-th selected session, or the
  requesting handle alone when that session has none.
\<close>

theorem C9_members_nonempty:
  assumes "getGymSimulations api handle limit = Inr res"
  shows "(\<forall>g \<in> set (res_gyms res). g_members g \<noteq> [])
         \<and> (\<exists>sessions. scanPages api handle limit 0 1 [] = Inr sessions
               \<and> length (res_gyms res) = length (selectTop limit sessions)
               \<and> (\<forall>j < length (res_gyms res).
                     g_members (res_gyms res ! j) =
                       (if sim_members (selectTop limit sessions ! j) = [] then [handle]
                        else sim_members (selectTop limit sessions ! j))))"
proof -
  from getGymSimulations_Inr [OF assms] obtain sessions where
    scan: "scanPages api handle limit 0 1 [] = Inr sessions" by blast
  let ?top = "selectTop limit sessions"
  have len: "length (res_gyms res) = length ?top"
  proof (cases "?top = []")
    case True
    with getGymSimulations_Inr [OF assms] scan show ?thesis by auto
  next
    case False
    then have "0 < length ?top" by simp
    from gym_fields(1) [OF assms scan this] show ?thesis .
  qed
  have mem: "g_members (res_gyms res ! j) =
               (if sim_members (?top ! j) = [] then [handle] else sim_members (?top ! j))"
    if "j < length (res_gyms res)" for j
    using gym_fields(4) [OF assms scan] that len by simp
  have "g_members g \<noteq> []" if "g \<in> set (res_gyms res)" for g
  proof -
    from that obtain j where "j < length (res_gyms res)" "g = res_gyms res ! j"
      by (auto simp: in_set_conv_nth)
    with mem [of j] show ?thesis by (simp split: if_splits)
  qed
  with scan len mem show ?thesis by blast
qed

theorem C9_members_nonempty_witness:
  "getGymSimulations soloApi ''solo_user'' 10
     = Inr \<lparr> res_handle = ''solo_user'',
             res_gyms = [gym105789\<lparr> g_members := [''solo_user''], g_rank := None,
                                    g_solved := None \<rparr>] \<rparr>
   \<and> g_members (gym105789\<lparr> g_members := [''solo_user''], g_rank := None, g_solved := None \<rparr>) \<noteq> []"
proof -
  note r = run_solo
  from C9_members_nonempty [OF r]
  have "g_members (gym105789\<lparr> g_members := [''solo_user''], g_rank := None, g_solved := None \<rparr>) \<noteq> []"
    by simp
  with r show ?thesis by simp
qed

text \<open>
  Claim C1. In Stage E the matched row is the first row of the standings whose party
  start time equals the session's and one of whose members is a member of the session;
  a row that only shares the start time is passed over, wherever it stands. Only when
  no row satisfies both keys is the first row with a common member taken, and when no
  row has a common member there is no match. In the result the session then shows the
  rank of the matched row, or no rank and no solved count when there is no match; and
  whatever the standings calls answer, they never decide whether the request returns.
\<close>

theorem C1_standings_row_match:
  "(byMember sim r \<longleftrightarrow>
      (\<exists>m \<in> set (p_members (r_party r)). m_handle m \<in> set (sim_members sim)))
   \<and> (byStartAndMember sim r \<longleftrightarrow>
        p_startTimeSeconds (r_party r) = Some (sim_startTimeSeconds sim) \<and> byMember sim r)
   \<and> (\<forall>i < length rows.
         byStartAndMember sim (rows ! i) \<and> (\<forall>k < i. \<not> byStartAndMember sim (rows ! k))
         \<longrightarrow> teamRow sim rows = Some (rows ! i))
   \<and> ((\<forall>r \<in> set rows. \<not> byStartAndMember sim r) \<longrightarrow>
        (\<forall>i < length rows.
           byMember sim (rows ! i) \<and> (\<forall>k < i. \<not> byMember sim (rows ! k))
           \<longrightarrow> teamRow sim rows = Some (rows ! i)))
   \<and> ((\<forall>r \<in> set rows. \<not> byMember sim r) \<longrightarrow> teamRow sim rows = None)
   \<and> (\<forall>res sessions j data.
         getGymSimulations api handle limit = Inr res
         \<and> scanPages api handle limit 0 1 [] = Inr sessions
         \<and> j < length (selectTop limit sessions)
         \<and> getContestStandings api j (sim_contestId (selectTop limit sessions ! j)) = Inr data
         \<longrightarrow> g_rank (res_gyms res ! j) =
               map_option (\<lambda>row. showInt (r_rank row))
                 (teamRow (selectTop limit sessions ! j) (d_rows data))
             \<and> (teamRow (selectTop limit sessions ! j) (d_rows data) = None
                  \<longrightarrow> g_rank (res_gyms res ! j) = None \<and> g_solved (res_gyms res ! j) = None))
   \<and> isl (getGymSimulations (api\<lparr> getContestStandings := f \<rparr>) handle limit)
       = isl (getGymSimulations api handle limit)"
proof (intro conjI allI impI)
  show "byMember sim r \<longleftrightarrow>
      (\<exists>m \<in> set (p_members (r_party r)). m_handle m \<in> set (sim_members sim))"
    by (rule byMember_iff)
  show "byStartAndMember sim r \<longleftrightarrow>
        p_startTimeSeconds (r_party r) = Some (sim_startTimeSeconds sim) \<and> byMember sim r"
    by (simp add: byStartAndMember_def)
  show "isl (getGymSimulations (api\<lparr> getContestStandings := f \<rparr>) handle limit)
       = isl (getGymSimulations api handle limit)"
    by (rule standings_never_abort)
next
  fix i
  assume "i < length rows"
    "byStartAndMember sim (rows ! i) \<and> (\<forall>k < i. \<not> byStartAndMember sim (rows ! k))"
  then show "teamRow sim rows = Some (rows ! i)" by (intro teamRow_first_both) auto
next
  fix i
  assume none: "\<forall>r \<in> set rows. \<not> byStartAndMember sim r" and i: "i < length rows"
    and m: "byMember sim (rows ! i) \<and> (\<forall>k < i. \<not> byMember sim (rows ! k))"
  from i m have "List.find (byMember sim) rows = Some (rows ! i)"
    unfolding find_Some_iff by blast
  with none show "teamRow sim rows = Some (rows ! i)" by (simp add: teamRow_fallback)
next
  assume none: "\<forall>r \<in> set rows. \<not> byMember sim r"
  then have "\<forall>r \<in> set rows. \<not> byStartAndMember sim r" by (simp add: byStartAndMember_def)
  then have "teamRow sim rows = List.find (byMember sim) rows" by (simp add: teamRow_fallback)
  with none show "teamRow sim rows = None" by (simp add: find_None_iff)
next
  fix res sessions j data
  assume a: "getGymSimulations api handle limit = Inr res
         \<and> scanPages api handle limit 0 1 [] = Inr sessions
         \<and> j < length (selectTop limit sessions)
         \<and> getContestStandings api j (sim_contestId (selectTop limit sessions ! j)) = Inr data"
  then have res: "getGymSimulations api handle limit = Inr res"
    and scan: "scanPages api handle limit 0 1 [] = Inr sessions"
    and j: "j < length (selectTop limit sessions)"
    and d: "getContestStandings api j (sim_contestId (selectTop limit sessions ! j)) = Inr data"
    by simp_all
  have rank: "g_rank (res_gyms res ! j) =
               map_option (\<lambda>row. showInt (r_rank row))
                 (teamRow (selectTop limit sessions ! j) (d_rows data))"
    using gym_fields(2) [OF res scan j]
    by (simp add: matched_Inr [OF d] option.map_comp o_def standingsEntry_def Let_def)
  show "g_rank (res_gyms res ! j) =
               map_option (\<lambda>row. showInt (r_rank row))
                 (teamRow (selectTop limit sessions ! j) (d_rows data))"
    by (rule rank)
  assume "teamRow (selectTop limit sessions ! j) (d_rows data) = None"
  then show "g_rank (res_gyms res ! j) = None" "g_solved (res_gyms res ! j) = None"
    using gym_fields(2,3) [OF res scan j] by (simp_all add: matched_Inr [OF d])
qed

theorem C1_standings_row_match_witness:
  "p_startTimeSeconds (r_party (d_rows STANDINGS_105789 ! 0)) = Some (sim_startTimeSeconds session105789)
   \<and> r_rank (d_rows STANDINGS_105789 ! 0) = 120
   \<and> \<not> byStartAndMember session105789 (d_rows STANDINGS_105789 ! 0)
   \<and> byStartAndMember session105789 (d_rows STANDINGS_105789 ! 1)
   \<and> teamRow session105789 (d_rows STANDINGS_105789) = Some (d_rows STANDINGS_105789 ! 1)
   \<and> r_rank (d_rows STANDINGS_105789 ! 1) = 177
   \<and> getGymSimulations fixtureApi ''automac'' 10
        = Inr \<lparr> res_handle = ''automac'', res_gyms = [gym105789] \<rparr>
   \<and> g_rank gym105789 = Some ''177''
   \<and> byMember (session106193\<lparr> sim_startTimeSeconds := T1 \<rparr>) (d_rows STANDINGS_106193 ! 0)
   \<and> teamRow (session106193\<lparr> sim_startTimeSeconds := T1 \<rparr>) (d_rows STANDINGS_106193)
        = Some (d_rows STANDINGS_106193 ! 0)
   \<and> teamRow (session105789\<lparr> sim_members := [] \<rparr>) (d_rows STANDINGS_105789) = None"
proof -
  let ?rows = "d_rows STANDINGS_105789"
  have facts: "p_startTimeSeconds (r_party (?rows ! 0)) = Some (sim_startTimeSeconds session105789)"
    "r_rank (?rows ! 0) = 120" "r_rank (?rows ! 1) = 177"
    "\<not> byStartAndMember session105789 (?rows ! 0)"
    "byStartAndMember session105789 (?rows ! 1)"
    "1 < length ?rows"
    by code_simp+
  have first: "\<forall>k < 1. \<not> byStartAndMember session105789 (?rows ! k)"
    using facts(4) by simp
  from C1_standings_row_match [of session105789 _ ?rows] facts(5,6) first
  have t: "teamRow session105789 ?rows = Some (?rows ! 1)" by blast
  let ?s2 = "session106193\<lparr> sim_startTimeSeconds := T1 \<rparr>"
  let ?rows2 = "d_rows STANDINGS_106193"
  have f2: "\<forall>r \<in> set ?rows2. \<not> byStartAndMember ?s2 r" "byMember ?s2 (?rows2 ! 0)"
    "0 < length ?rows2"
    by code_simp+
  from C1_standings_row_match [of ?s2 _ ?rows2] f2
  have t2: "teamRow ?s2 ?rows2 = Some (?rows2 ! 0)" by simp
  have f3: "\<forall>r \<in> set ?rows. \<not> byMember (session105789\<lparr> sim_members := [] \<rparr>) r"
    by code_simp
  from C1_standings_row_match [of "session105789\<lparr> sim_members := [] \<rparr>" _ ?rows] f3
  have t3: "teamRow (session105789\<lparr> sim_members := [] \<rparr>) ?rows = None" by blast
  have g: "g_rank gym105789 = Some ''177''" by (simp add: gym105789_def)
  from facts t t2 t3 f2 g run_fixture show ?thesis by simp
qed

text \<open>
  Claim C8. A standings failure stays with its session. If the resolver returns \<open>res\<close>
  and the standings call for the \<open>i\<close>-th selected session is made to throw instead,
  the resolver still returns, and returns \<open>res\<close> with entry \<open>i\<close> stripped of its rank and
  solved count: every other entry is the same, in the same place. (On standings of the
  declared type the processing after the fetch cannot throw, so the failure is the
  fetch's.)
\<close>

theorem C8_standings_failure_isolated:
  assumes res: "getGymSimulations api handle limit = Inr res"
    and i: "i < length (res_gyms res)"
  shows "getGymSimulations
           (api\<lparr> getContestStandings := (getContestStandings api)(i := \<lambda>contestId. Inl e) \<rparr>)
           handle limit
         = Inr (res\<lparr> res_gyms :=
                      (res_gyms res)[i := (res_gyms res ! i)\<lparr> g_rank := None, g_solved := None \<rparr>] \<rparr>)"
proof -
  let ?api = "api\<lparr> getContestStandings := (getContestStandings api)(i := \<lambda>contestId. Inl e) \<rparr>"
  from getGymSimulations_Inr [OF res] obtain sessions gymMap0 where
    scan: "scanPages api handle limit 0 1 [] = Inr sessions"
    and h: "res_handle res = handle"
    and m0: "mapThrowing (shapeGym handle gymMap0
               (resolveStandings api 0 (selectTop limit sessions) Map.empty))
               (selectTop limit sessions) = Inr (res_gyms res)"
    by blast
  let ?top = "selectTop limit sessions"
  let ?cache = "resolveStandings api 0 ?top Map.empty"
  let ?cache' = "resolveStandings ?api 0 ?top Map.empty"
  from mapThrowing_Inr [OF m0] have len: "length (res_gyms res) = length ?top" by simp
  with i have top_ne: "?top \<noteq> []" by auto
  then have ne: "sessions \<noteq> []" by (auto simp: selectTop_Nil)
  from res scan ne obtain gymList where gl: "getContestList api True = Inr gymList"
    by (auto simp: getGymSimulations_def split: sum.splits)
  let ?gm = "buildGymMap ?top gymList"
  from res scan ne gl have m: "mapThrowing (shapeGym handle ?gm ?cache) ?top = Inr (res_gyms res)"
    by (auto simp: getGymSimulations_def split: sum.splits)
  have "scanPages ?api handle limit 0 1 [] = scanPages api handle limit 0 1 []"
    by (rule scanPages_api_cong) simp
  with scan have scan': "scanPages ?api handle limit 0 (Suc 0) [] = Inr sessions" by simp
  have d: "distinct (map simKey ?top)"
    using scanPages_sessions_keyed [OF scan] by (rule selectTop_distinct)
  have c: "?cache (simKey (?top ! j)) = matched api j (?top ! j)" if "j < length ?top" for j
    using resolveStandings_lookup [OF d that, of Map.empty api 0] by simp
  have c': "?cache' (simKey (?top ! j)) = matched ?api j (?top ! j)" if "j < length ?top" for j
    using resolveStandings_lookup [OF d that, of Map.empty ?api 0] by simp
  let ?gyms' = "(res_gyms res)[i := (res_gyms res ! i)\<lparr> g_rank := None, g_solved := None \<rparr>]"
  have "mapThrowing (shapeGym handle ?gm ?cache') ?top = Inr ?gyms'"
  proof (rule mapThrowing_eqI)
    show "length ?gyms' = length ?top" using len by simp
    fix j assume j: "j < length ?top"
    from mapThrowing_Inr [OF m] j
    have sj: "shapeGym handle ?gm ?cache (?top ! j) = Inr (res_gyms res ! j)" by simp
    show "shapeGym handle ?gm ?cache' (?top ! j) = Inr (?gyms' ! j)"
    proof (cases "j = i")
      case True
      have cn: "?cache' (simKey (?top ! j)) = None"
        using c' [OF j] True by (simp add: matched_fun_upd_throw)
      have "shapeGym handle ?gm ?cache' (?top ! j)
              = Inr ((res_gyms res ! j)\<lparr> g_rank := None, g_solved := None \<rparr>)"
        using sj cn by (rule shapeGym_no_entry)
      with True i show ?thesis by simp
    next
      case False
      have "?cache' (simKey (?top ! j)) = ?cache (simKey (?top ! j))"
        using c [OF j] c' [OF j] False by (simp add: matched_fun_upd_other)
      then have "shapeGym handle ?gm ?cache' (?top ! j) = shapeGym handle ?gm ?cache (?top ! j)"
        by (intro shapeGym_same_entry) simp
      with sj False show ?thesis by simp
    qed
  qed
  with scan' ne gl h show ?thesis
    by (simp add: getGymSimulations_def)
qed

theorem C8_standings_failure_isolated_witness:
  "getGymSimulations twoSimsApi ''automac'' 10
     = Inr \<lparr> res_handle = ''automac'', res_gyms = [gym105789, gym106193] \<rparr>
   \<and> getGymSimulations
       (twoSimsApi\<lparr> getContestStandings :=
          (getContestStandings twoSimsApi)
            (0 := \<lambda>contestId. Inl (Thrown \<lparr> e_status = None, e_message = Some ''CF API error'' \<rparr>)) \<rparr>)
       ''automac'' 10
     = Inr \<lparr> res_handle = ''automac'',
             res_gyms = [gym105789\<lparr> g_rank := None, g_solved := None \<rparr>, gym106193] \<rparr>"
proof -
  have i: "0 < length (res_gyms \<lparr> res_handle = ''automac'', res_gyms = [gym105789, gym106193] \<rparr>)"
    by simp
  from C8_standings_failure_isolated [OF run_twoSims i] run_twoSims
  show ?thesis by simp
qed

text \<open>
  Claim C4 says the list is sorted strictly descending by start time and has exactly
  \<open>min(limit, sessions)\<close> entries. Neither holds everywhere. Two sessions of different
  contests that start in the same second are both kept, so the order is not strict;
  and \<^verbatim>\<open>slice(0, limit)\<close> with the limit \<open>-1\<close> drops the last of two sessions and
  returns one entry.
\<close>

theorem C4_counterexample:
  "scanPages tieApi ''automac'' 10 0 1 [] = Inr tieSessions
   \<and> map sim_contestId (selectTop 10 tieSessions) = [105789, 106193]
   \<and> map sim_startTimeSeconds (selectTop 10 tieSessions) = [1771797960, 1771797960]
   \<and> \<not> sorted_wrt (\<lambda>a b. sim_startTimeSeconds a > sim_startTimeSeconds b) (selectTop 10 tieSessions)
   \<and> getGymSimulations tieApi ''automac'' 10
       = Inr \<lparr> res_handle = ''automac'',
               res_gyms = [gym105789, gym106193\<lparr> g_simulatedAt := ''2026-02-22 22:06 UTC'' \<rparr>] \<rparr>
   \<and> scanPages twoSimsApi ''automac'' (- 1) 0 1 [] = Inr twoSessions
   \<and> length twoSessions = 2
   \<and> getGymSimulations twoSimsApi ''automac'' (- 1)
       = Inr \<lparr> res_handle = ''automac'', res_gyms = [gym105789] \<rparr>
   \<and> int (length [gym105789]) \<noteq> min (- 1) (int (length twoSessions))"
proof -
  have "map sim_contestId (selectTop 10 tieSessions) = [105789, 106193]"
    "map sim_startTimeSeconds (selectTop 10 tieSessions) = [1771797960, 1771797960]"
    "\<not> sorted_wrt (\<lambda>a b. sim_startTimeSeconds a > sim_startTimeSeconds b) (selectTop 10 tieSessions)"
    "length twoSessions = 2"
    by code_simp+
  with scan_fixtures run_tie run_twoSims_negative show ?thesis by simp
qed

text \<open>
  Claim C4, amended. The sessions that \<open>getGymSimulations\<close> selects are in descending
  order of start time, equal start times allowed. Two selected sessions with the same
  start time are of different contests, and they stand in the order in which the scan
  first saw them: the sessions map holds every session under the key of its contest and
  start time, its keys in the order of their first candidate on the pages fetched
  (\<open>remdups\<close> keeps the last of equal elements, so on the reversed list the first), and
  the selected sessions of one start time are the first of the map's sessions of that
  start time, in the map's order. For a whole limit that is not negative the number of
  selected sessions is \<open>min(limit, n)\<close>, where \<open>n\<close> is the number of deduplicated sessions
  the scan has found (no two under the same key); the returned list has one entry per
  selected session, in the same order, rendering that session's start time and contest;
  and no session at all gives the empty list, not an error.
\<close>

theorem C4_sorted_truncated:
  "(\<forall>sessions. scanPages api handle limit 0 1 [] = Inr sessions \<longrightarrow>
      distinct (map fst sessions)
      \<and> map fst sessions = map simKey (map snd sessions)
      \<and> (\<exists>pages.
            (\<forall>p < length pages.
               getUserSubmissions api handle pageSize (1 + p * pageSize) = Inr (pages ! p))
            \<and> map fst sessions
                = rev (remdups (rev (map submissionKey
                                       (filter (\<lambda>s. isGym s \<and> isVirtual s) (concat pages))))))
      \<and> sorted_wrt (\<lambda>a b. sim_startTimeSeconds a \<ge> sim_startTimeSeconds b)
          (selectTop limit sessions)
      \<and> (\<forall>i j. i < j \<and> j < length (selectTop limit sessions)
                 \<and> sim_startTimeSeconds (selectTop limit sessions ! i)
                     = sim_startTimeSeconds (selectTop limit sessions ! j)
             \<longrightarrow> sim_contestId (selectTop limit sessions ! i)
                   \<noteq> sim_contestId (selectTop limit sessions ! j))
      \<and> (\<forall>t. filter (\<lambda>s. sim_startTimeSeconds s = t) (selectTop limit sessions)
               = take (length (filter (\<lambda>s. sim_startTimeSeconds s = t) (selectTop limit sessions)))
                   (filter (\<lambda>s. sim_startTimeSeconds s = t) (map snd sessions)))
      \<and> (0 \<le> limit \<longrightarrow> length (selectTop limit sessions) = min (nat limit) (length sessions))
      \<and> (sessions = [] \<longrightarrow>
            getGymSimulations api handle limit = Inr \<lparr> res_handle = handle, res_gyms = [] \<rparr>)
      \<and> (\<forall>res. getGymSimulations api handle limit = Inr res \<longrightarrow>
            length (res_gyms res) = length (selectTop limit sessions)
            \<and> (\<forall>j < length (res_gyms res).
                  simulatedAt (sim_startTimeSeconds (selectTop limit sessions ! j))
                    = Inr (g_simulatedAt (res_gyms res ! j))
                  \<and> g_link (res_gyms res ! j)
                      = ''https://codeforces.com/gym/''
                          @ showInt (sim_contestId (selectTop limit sessions ! j))
                          @ ''/standings'')))"
proof (intro allI impI)
  fix sessions
  assume scan: "scanPages api handle limit 0 1 [] = Inr sessions"
  let ?top = "selectTop limit sessions"
  have k: "keyed sessions" using scan by (rule scanPages_sessions_keyed)
  then have c1: "distinct (map fst sessions)"
    by (simp add: keyed_def)
  from k have c2: "map fst sessions = map simKey (map snd sessions)"
    by (auto simp: keyed_def simKey_def)
  from scanPages_pages [OF scan]
  obtain pages where out: "sessions = foldl scanSubmission [] (concat pages)"
    and pg: "\<forall>p < length pages.
               getUserSubmissions api handle pageSize (1 + p * pageSize) = Inr (pages ! p)"
    by blast
  from out have "map fst sessions
                = rev (remdups (rev (map submissionKey
                                       (filter (\<lambda>s. isGym s \<and> isVirtual s) (concat pages)))))"
    by (simp only: scan_order)
  with pg have c3: "\<exists>pages.
            (\<forall>p < length pages.
               getUserSubmissions api handle pageSize (1 + p * pageSize) = Inr (pages ! p))
            \<and> map fst sessions
                = rev (remdups (rev (map submissionKey
                                       (filter (\<lambda>s. isGym s \<and> isVirtual s) (concat pages)))))"
    by blast
  have c4: "sorted_wrt (\<lambda>a b. sim_startTimeSeconds a \<ge> sim_startTimeSeconds b) ?top"
    by (rule selectTop_sorted)
  have c5: "\<forall>i j. i < j \<and> j < length ?top
                 \<and> sim_startTimeSeconds (?top ! i) = sim_startTimeSeconds (?top ! j)
             \<longrightarrow> sim_contestId (?top ! i) \<noteq> sim_contestId (?top ! j)"
    using selectTop_tie_contests [OF k] by blast
  have c6: "\<forall>t. filter (\<lambda>s. sim_startTimeSeconds s = t) ?top
               = take (length (filter (\<lambda>s. sim_startTimeSeconds s = t) ?top))
                   (filter (\<lambda>s. sim_startTimeSeconds s = t) (map snd sessions))"
    using selectTop_stable by blast
  have c7: "0 \<le> limit \<longrightarrow> length ?top = min (nat limit) (length sessions)"
    using selectTop_length by blast
  have c8: "sessions = [] \<longrightarrow>
            getGymSimulations api handle limit = Inr \<lparr> res_handle = handle, res_gyms = [] \<rparr>"
    using scan by (simp add: getGymSimulations_def)
  have c9: "\<forall>res. getGymSimulations api handle limit = Inr res \<longrightarrow>
            length (res_gyms res) = length ?top
            \<and> (\<forall>j < length (res_gyms res).
                  simulatedAt (sim_startTimeSeconds (?top ! j))
                    = Inr (g_simulatedAt (res_gyms res ! j))
                  \<and> g_link (res_gyms res ! j)
                      = ''https://codeforces.com/gym/''
                          @ showInt (sim_contestId (?top ! j))
                          @ ''/standings'')"
  proof (intro allI impI conjI)
    fix res
    assume res: "getGymSimulations api handle limit = Inr res"
    from getGymSimulations_Inr [OF res] scan
    obtain gymMap where "mapThrowing (shapeGym handle gymMap
               (resolveStandings api 0 ?top Map.empty)) ?top = Inr (res_gyms res)"
      by auto
    from mapThrowing_Inr [OF this]
    show len: "length (res_gyms res) = length ?top" by simp
    fix j
    assume "j < length (res_gyms res)"
    with len have j: "j < length ?top" by simp
    show "simulatedAt (sim_startTimeSeconds (?top ! j)) = Inr (g_simulatedAt (res_gyms res ! j))"
      by (rule gym_fields(6) [OF res scan j])
    show "g_link (res_gyms res ! j)
            = ''https://codeforces.com/gym/'' @ showInt (sim_contestId (?top ! j)) @ ''/standings''"
      by (rule gym_fields(7) [OF res scan j])
  qed
  from c1 c2 c3 c4 c5 c6 c7 c8 c9
  show "distinct (map fst sessions)
      \<and> map fst sessions = map simKey (map snd sessions)
      \<and> (\<exists>pages.
            (\<forall>p < length pages.
               getUserSubmissions api handle pageSize (1 + p * pageSize) = Inr (pages ! p))
            \<and> map fst sessions
                = rev (remdups (rev (map submissionKey
                                       (filter (\<lambda>s. isGym s \<and> isVirtual s) (concat pages))))))
      \<and> sorted_wrt (\<lambda>a b. sim_startTimeSeconds a \<ge> sim_startTimeSeconds b) ?top
      \<and> (\<forall>i j. i < j \<and> j < length ?top
                 \<and> sim_startTimeSeconds (?top ! i) = sim_startTimeSeconds (?top ! j)
             \<longrightarrow> sim_contestId (?top ! i) \<noteq> sim_contestId (?top ! j))
      \<and> (\<forall>t. filter (\<lambda>s. sim_startTimeSeconds s = t) ?top
               = take (length (filter (\<lambda>s. sim_startTimeSeconds s = t) ?top))
                   (filter (\<lambda>s. sim_startTimeSeconds s = t) (map snd sessions)))
      \<and> (0 \<le> limit \<longrightarrow> length ?top = min (nat limit) (length sessions))
      \<and> (sessions = [] \<longrightarrow>
            getGymSimulations api handle limit = Inr \<lparr> res_handle = handle, res_gyms = [] \<rparr>)
      \<and> (\<forall>res. getGymSimulations api handle limit = Inr res \<longrightarrow>
            length (res_gyms res) = length ?top
            \<and> (\<forall>j < length (res_gyms res).
                  simulatedAt (sim_startTimeSeconds (?top ! j))
                    = Inr (g_simulatedAt (res_gyms res ! j))
                  \<and> g_link (res_gyms res ! j)
                      = ''https://codeforces.com/gym/''
                          @ showInt (sim_contestId (?top ! j))
                          @ ''/standings''))"
    by (intro conjI)
qed

theorem C4_sorted_truncated_witness:
  "scanPages twoSimsApi ''automac'' 1 0 1 [] = Inr twoSessions
   \<and> (0::int) \<le> 1
   \<and> length (selectTop 1 twoSessions) = min (nat 1) (length twoSessions)
   \<and> getGymSimulations twoSimsApi ''automac'' 1
       = Inr \<lparr> res_handle = ''automac'', res_gyms = [gym105789] \<rparr>
   \<and> length (res_gyms \<lparr> res_handle = ''automac'', res_gyms = [gym105789] \<rparr>)
       = length (selectTop 1 twoSessions)
   \<and> sorted_wrt (\<lambda>a b. sim_startTimeSeconds a \<ge> sim_startTimeSeconds b) (selectTop 1 twoSessions)
   \<and> distinct (map fst twoSessions)
   \<and> scanPages tieApi ''automac'' 10 0 1 [] = Inr tieSessions
   \<and> (0::nat) < 1 \<and> 1 < length (selectTop 10 tieSessions)
   \<and> sim_startTimeSeconds (selectTop 10 tieSessions ! 0)
       = sim_startTimeSeconds (selectTop 10 tieSessions ! 1)
   \<and> sim_contestId (selectTop 10 tieSessions ! 0) \<noteq> sim_contestId (selectTop 10 tieSessions ! 1)
   \<and> map sim_contestId (filter (\<lambda>s. sim_startTimeSeconds s = T1) (selectTop 10 tieSessions))
       = [105789, 106193]"
proof -
  note s = scan_fixtures(2)
  note c = C4_sorted_truncated [of twoSimsApi "''automac''" 1, THEN spec, THEN mp, OF s]
  have d: "distinct (map fst twoSessions)" using c by (rule conjunct1)
  note c3 = c [THEN conjunct2, THEN conjunct2, THEN conjunct2]
  have srt: "sorted_wrt (\<lambda>a b. sim_startTimeSeconds a \<ge> sim_startTimeSeconds b)
               (selectTop 1 twoSessions)"
    using c3 by (rule conjunct1)
  note c6 = c3 [THEN conjunct2, THEN conjunct2, THEN conjunct2]
  have z: "(0::int) \<le> 1" by simp
  have l: "length (selectTop 1 twoSessions) = min (nat 1) (length twoSessions)"
    using c6 [THEN conjunct1] z by (rule mp)
  have g: "length (res_gyms \<lparr> res_handle = ''automac'', res_gyms = [gym105789] \<rparr>)
       = length (selectTop 1 twoSessions)"
    using c6 [THEN conjunct2, THEN conjunct2, THEN spec, THEN mp, OF run_twoSims_limit1]
    by (rule conjunct1)
  note st = scan_fixtures(4)
  note t = C4_sorted_truncated [of tieApi "''automac''" 10, THEN spec, THEN mp, OF st]
  note t4 = t [THEN conjunct2, THEN conjunct2, THEN conjunct2, THEN conjunct2]
  have i01: "(0::nat) < 1" by simp
  have l2: "1 < length (selectTop 10 tieSessions)" by code_simp
  have se: "sim_startTimeSeconds (selectTop 10 tieSessions ! 0)
       = sim_startTimeSeconds (selectTop 10 tieSessions ! 1)" by code_simp
  have ne: "sim_contestId (selectTop 10 tieSessions ! 0) \<noteq> sim_contestId (selectTop 10 tieSessions ! 1)"
    using t4 [THEN conjunct1, THEN spec, THEN spec, THEN mp, of 0 1] i01 l2 se by blast
  have vals: "map sim_contestId (filter (\<lambda>s. sim_startTimeSeconds s = T1) (map snd tieSessions))
                = [105789, 106193]"
    by code_simp
  have n2: "length (filter (\<lambda>s. sim_startTimeSeconds s = T1) (selectTop 10 tieSessions)) = 2"
    by code_simp
  have "filter (\<lambda>s. sim_startTimeSeconds s = T1) (selectTop 10 tieSessions)
          = take 2 (filter (\<lambda>s. sim_startTimeSeconds s = T1) (map snd tieSessions))"
    using t4 [THEN conjunct2, THEN conjunct1, THEN spec, of T1] n2 by simp
  then have "map sim_contestId (filter (\<lambda>s. sim_startTimeSeconds s = T1) (selectTop 10 tieSessions))
          = take 2 (map sim_contestId (filter (\<lambda>s. sim_startTimeSeconds s = T1) (map snd tieSessions)))"
    by (simp only: take_map)
  with vals have ord: "map sim_contestId (filter (\<lambda>s. sim_startTimeSeconds s = T1) (selectTop 10 tieSessions))
       = [105789, 106193]"
    by simp
  from s z l run_twoSims_limit1 g srt d st i01 l2 se ne ord show ?thesis by (intro conjI)
qed

text \<open>
  Claim C7 says that for a non-empty list \<open>trimHistory\<close> returns at most the four most
  recent (user, assistant) pairs, then the final message. The code pairs the messages
  at the slots \<open>(0, 1), (2, 3), ...\<close> only, so a single question that was left without an
  answer moves every later turn off those slots. Of the twelve messages
  \<open>q0 a0 x q1 a1 q2 a2 q3 a3 q4 a4 q5\<close> it returns \<open>q0\<close>, \<open>a0\<close> and \<open>q5\<close>: the oldest turn
  and the question, and none of the four most recent turns, which with the question
  are the nine messages after \<open>x\<close>. (What the claim says of the size and of the final
  message holds for every non-empty list, and on a list that alternates from its first
  message the oldest turns are the ones dropped: see \<open>trimHistory_shape\<close> and
  \<open>trimHistory_conversation11\<close>.)
\<close>

theorem C7_recent_turns_dropped:
  "trimHistory unanswered12
     = [Some (userMsg ''q0''), Some (assistantMsg ''a0''), Some (userMsg ''q5'')]
   \<and> drop 3 unanswered12
       = [userMsg ''q1'', assistantMsg ''a1'', userMsg ''q2'', assistantMsg ''a2'',
          userMsg ''q3'', assistantMsg ''a3'', userMsg ''q4'', assistantMsg ''a4'',
          userMsg ''q5'']
   \<and> trimHistory unanswered12 \<noteq> map Some (drop 3 unanswered12)
   \<and> Some (assistantMsg ''a4'') \<notin> set (trimHistory unanswered12)"
proof -
  have r: "trimHistoryRefs unanswered12 = [Some 0, Some 1, Some 11]"
    by (simp add: trimHistoryRefs_def pairs_unanswered12 sliceLast_def MAX_HISTORY_TURNS_def)
       (simp add: unanswered12_def)
  have t: "trimHistory unanswered12
     = [Some (userMsg ''q0''), Some (assistantMsg ''a0''), Some (userMsg ''q5'')]"
    by (simp add: trimHistory_def r) (simp add: unanswered12_def)
  have d: "drop 3 unanswered12
       = [userMsg ''q1'', assistantMsg ''a1'', userMsg ''q2'', assistantMsg ''a2'',
          userMsg ''q3'', assistantMsg ''a3'', userMsg ''q4'', assistantMsg ''a4'',
          userMsg ''q5'']"
    by (simp add: unanswered12_def)
  have n: "trimHistory unanswered12 \<noteq> map Some (drop 3 unanswered12)"
    unfolding t d by simp
  have m: "Some (assistantMsg ''a4'') \<notin> set (trimHistory unanswered12)"
    unfolding t by (simp add: userMsg_def assistantMsg_def)
  from t d n m show ?thesis by (intro conjI)
qed

text \<open>
  Claim C3. A run of \<open>streamEventsWithRetry\<close> makes some number \<open>n\<close> of attempts, at
  least one and at most \<open>maxRetries + 1\<close>. Every attempt but the last failed with a
  rate-limit error, and was followed at once by a \<open>retrying\<close> event carrying
  \<open>min 60 (15 * (k + 1))\<close> seconds for attempt \<open>k\<close>, by a sleep of exactly that many
  seconds (in milliseconds), and by the next attempt. The run ends with the last
  attempt: normally when it did not fail, and otherwise by throwing its error, which
  unless the retries are used up is not a rate-limit error. An error is a rate-limit
  error when its status is 429 or its message contains \<open>rate_limit\<close>.
\<close>

theorem C3_bounded_retry:
  "(\<exists>n. 1 \<le> n \<and> n \<le> maxRetries + 1
      \<and> length (filter isOpen (fst (streamEventsWithRetry provider maxRetries 0))) = n
      \<and> (\<forall>k < n - 1. \<exists>err. a_failure (provider k) = Some err \<and> is429 err)
      \<and> (n \<le> maxRetries \<longrightarrow>
            (\<forall>err. a_failure (provider (n - 1)) = Some err \<longrightarrow> \<not> is429 err))
      \<and> fst (streamEventsWithRetry provider maxRetries 0)
          = concat (map (\<lambda>k. Open k # map (\<lambda>ev. Yield ev k) (a_events (provider k))
                               @ [Write (SSE_retrying (min 60 (15 * (k + 1)))),
                                  Sleep (min 60 (15 * (k + 1)) * 1000)])
                     [0..<n - 1])
            @ Open (n - 1) # map (\<lambda>ev. Yield ev (n - 1)) (a_events (provider (n - 1)))
      \<and> snd (streamEventsWithRetry provider maxRetries 0)
          = (case a_failure (provider (n - 1)) of
               None \<Rightarrow> Return | Some err \<Rightarrow> Throw (Thrown err)))
   \<and> (is429 e \<longleftrightarrow>
        e_status e = Some 429
        \<or> (\<exists>m pre post. e_message e = Some m \<and> m = pre @ ''rate_limit'' @ post))"
proof
  from retry_trace_from [of 0 maxRetries provider] obtain n where
    n: "0 < n" "n \<le> maxRetries + 1"
    and all: "\<forall>k. 0 \<le> k \<and> k < n - 1 \<longrightarrow> (\<exists>err. a_failure (provider k) = Some err \<and> is429 err)"
    and stop: "n - 1 < maxRetries \<longrightarrow> (\<forall>err. a_failure (provider (n - 1)) = Some err \<longrightarrow> \<not> is429 err)"
    and tr: "streamEventsWithRetry provider maxRetries 0
           = (concat (map (retrySegment provider) [0..<n - 1]) @ lastSegment provider (n - 1),
              case a_failure (provider (n - 1)) of
                None \<Rightarrow> Return | Some err \<Rightarrow> Throw (Thrown err))"
    by auto
  have opens: "length (filter isOpen (fst (streamEventsWithRetry provider maxRetries 0))) = n"
    using n by (simp add: tr opens_segments opens_lastSegment)
  have seg: "retrySegment provider = (\<lambda>k. Open k # map (\<lambda>ev. Yield ev k) (a_events (provider k))
                               @ [Write (SSE_retrying (min 60 (15 * (k + 1)))),
                                  Sleep (min 60 (15 * (k + 1)) * 1000)])"
    by (rule ext) (simp add: retrySegment_def)
  have f: "fst (streamEventsWithRetry provider maxRetries 0)
          = concat (map (\<lambda>k. Open k # map (\<lambda>ev. Yield ev k) (a_events (provider k))
                               @ [Write (SSE_retrying (min 60 (15 * (k + 1)))),
                                  Sleep (min 60 (15 * (k + 1)) * 1000)])
                     [0..<n - 1])
            @ Open (n - 1) # map (\<lambda>ev. Yield ev (n - 1)) (a_events (provider (n - 1)))"
    unfolding tr fst_conv seg [symmetric] by (simp add: lastSegment_def)
  have s: "snd (streamEventsWithRetry provider maxRetries 0)
          = (case a_failure (provider (n - 1)) of
               None \<Rightarrow> Return | Some err \<Rightarrow> Throw (Thrown err))"
    by (simp add: tr)
  from n have n1: "1 \<le> n" by simp
  from all have all': "\<forall>k < n - 1. \<exists>err. a_failure (provider k) = Some err \<and> is429 err" by simp
  from stop n have stop': "n \<le> maxRetries \<longrightarrow>
            (\<forall>err. a_failure (provider (n - 1)) = Some err \<longrightarrow> \<not> is429 err)"
    by auto
  from n1 n(2) opens all' stop' f s
  show "\<exists>n. 1 \<le> n \<and> n \<le> maxRetries + 1
      \<and> length (filter isOpen (fst (streamEventsWithRetry provider maxRetries 0))) = n
      \<and> (\<forall>k < n - 1. \<exists>err. a_failure (provider k) = Some err \<and> is429 err)
      \<and> (n \<le> maxRetries \<longrightarrow>
            (\<forall>err. a_failure (provider (n - 1)) = Some err \<longrightarrow> \<not> is429 err))
      \<and> fst (streamEventsWithRetry provider maxRetries 0)
          = concat (map (\<lambda>k. Open k # map (\<lambda>ev. Yield ev k) (a_events (provider k))
                               @ [Write (SSE_retrying (min 60 (15 * (k + 1)))),
                                  Sleep (min 60 (15 * (k + 1)) * 1000)])
                     [0..<n - 1])
            @ Open (n - 1) # map (\<lambda>ev. Yield ev (n - 1)) (a_events (provider (n - 1)))
      \<and> snd (streamEventsWithRetry provider maxRetries 0)
          = (case a_failure (provider (n - 1)) of
               None \<Rightarrow> Return | Some err \<Rightarrow> Throw (Thrown err))"
    by (intro exI [of _ n] conjI)
  show "is429 e \<longleftrightarrow>
        e_status e = Some 429
        \<or> (\<exists>m pre post. e_message e = Some m \<and> m = pre @ ''rate_limit'' @ post)"
    by (rule is429_iff)
qed

theorem C3_bounded_retry_witness:
  "streamEventsWithRetry rateLimitedTwice 3 0 =
     ([Open 0, Write (SSE_retrying 15), Sleep 15000,
       Open 1, Yield (Content_block_delta (Text_delta ''Let me check'')) 1,
       Write (SSE_retrying 30), Sleep 30000,
       Open 2, Yield (Content_block_delta (Text_delta ''Hello'')) 2,
       Yield (Message_delta (Some ''end_turn'')) 2],
      Return)
   \<and> length (filter isOpen (fst (streamEventsWithRetry rateLimitedTwice 3 0))) = 3
   \<and> (\<exists>err. a_failure (rateLimitedTwice 0) = Some err \<and> is429 err)
   \<and> (\<exists>err. a_failure (rateLimitedTwice 1) = Some err \<and> is429 err)
   \<and> a_failure (rateLimitedTwice 2) = None
   \<and> streamEventsWithRetry serverOverloaded 3 0 =
       ([Open 0], Throw (Thrown \<lparr> e_status = Some 529, e_message = Some ''overloaded'' \<rparr>))
   \<and> \<not> is429 \<lparr> e_status = Some 529, e_message = Some ''overloaded'' \<rparr>
   \<and> streamEventsWithRetry alwaysRateLimited 5 0 =
     ([Open 0, Write (SSE_retrying 15), Sleep 15000,
       Open 1, Write (SSE_retrying 30), Sleep 30000,
       Open 2, Write (SSE_retrying 45), Sleep 45000,
       Open 3, Write (SSE_retrying 60), Sleep 60000,
       Open 4, Write (SSE_retrying 60), Sleep 60000,
       Open 5],
      Throw (Thrown \<lparr> e_status = Some 429, e_message = None \<rparr>))"
proof -
  have cnt: "length (filter isOpen (fst (streamEventsWithRetry rateLimitedTwice 3 0))) = 3"
    by (simp add: run_rateLimitedTwice isOpen_def)
  from C3_bounded_retry [of 3 rateLimitedTwice] obtain n where
    "length (filter isOpen (fst (streamEventsWithRetry rateLimitedTwice 3 0))) = n"
    and all: "\<forall>k < n - 1. \<exists>err. a_failure (rateLimitedTwice k) = Some err \<and> is429 err"
    by blast
  with cnt have "n = 3" by simp
  with all have a0: "\<exists>err. a_failure (rateLimitedTwice 0) = Some err \<and> is429 err"
    and a1: "\<exists>err. a_failure (rateLimitedTwice 1) = Some err \<and> is429 err"
    by simp_all
  have a2: "a_failure (rateLimitedTwice 2) = None" by (simp add: rateLimitedTwice_def)
  have no: "\<not> is429 \<lparr> e_status = Some 529, e_message = Some ''overloaded'' \<rparr>"
    by (simp add: is429_def)
  from run_rateLimitedTwice cnt a0 a1 a2 run_serverOverloaded no run_alwaysRateLimited
  show ?thesis by (intro conjI)
qed

text \<open>
  Claim C2 says every execution of \<open>streamAgent\<close> writes exactly one \<open>done\<close>, last.
  The code breaks this for an empty message list: \<open>trimHistory\<close> then returns the one
  element \<^verbatim>\<open>undefined\<close>, mapping it to a provider message reads a property of it, and
  this stands before the \<^verbatim>\<open>try\<close>. The promise is rejected with a TypeError and nothing
  has been written. (For every non-empty list the claim holds: see
  \<open>streamAgent_done_last\<close>.)
\<close>

theorem C2_empty_history_rejects: "streamAgent env [] = Some ([], Rejected TypeError)"
  by (simp add: streamAgent_def anthropicMessages_def trimHistory_def trimHistoryRefs_def
        pairsFrom.simps sliceLast_def)

end
